theory Spec2Isabelle
  imports Complex_Main "HOL-Library.Multiset"
begin

section \<open>Python values\<close>

text \<open>
  The script \<^verbatim>\<open>files/scripts/inventory.py\<close> reads the output of
  \<^verbatim>\<open>vml show --format-json --all --running\<close> with \<^verbatim>\<open>json.loads\<close> and prints
  an Ansible dynamic inventory with \<^verbatim>\<open>json.dumps\<close>. All values it handles are
  JSON values as Python holds them: \<^verbatim>\<open>None\<close>, \<^verbatim>\<open>bool\<close>, \<^verbatim>\<open>int\<close> (unbounded),
  \<^verbatim>\<open>float\<close>, \<^verbatim>\<open>str\<close>, \<^verbatim>\<open>list\<close> and \<^verbatim>\<open>dict\<close>.

  A \<^verbatim>\<open>float\<close> is represented by its value (a finite double; the script only
  tests it against zero and passes it on). A \<^verbatim>\<open>str\<close> is a list of characters,
  a \<^verbatim>\<open>dict\<close> is an association list in insertion order with distinct keys,
  which is the order \<^verbatim>\<open>json.dumps\<close> prints.
\<close>

datatype json =
    JNull
  | JBool bool
  | JInt int
  | JFloat real
  | JStr string
  | JList "json list"
  | JObj "(string \<times> json) list"

type_synonym dict = "(string \<times> json) list"

datatype error = ValueError | KeyError | TypeError

text \<open>Truth value testing, as \<^verbatim>\<open>if x:\<close> does it.\<close>

fun truthy :: "json \<Rightarrow> bool" where
  "truthy JNull = False"
| "truthy (JBool b) = b"
| "truthy (JInt n) = (n \<noteq> 0)"
| "truthy (JFloat r) = (r \<noteq> 0)"
| "truthy (JStr s) = (s \<noteq> [])"
| "truthy (JList xs) = (xs \<noteq> [])"
| "truthy (JObj kvs) = (kvs \<noteq> [])"

text \<open>
  \<^verbatim>\<open>d[k]\<close> and \<^verbatim>\<open>d[k] = v\<close> on an insertion-ordered dictionary: a key that is
  present keeps its position, a new key goes to the end.
\<close>

definition dict_get :: "(string \<times> 'v) list \<Rightarrow> string \<Rightarrow> 'v option" where
  "dict_get d k = map_of d k"

fun dict_set :: "(string \<times> 'v) list \<Rightarrow> string \<Rightarrow> 'v \<Rightarrow> (string \<times> 'v) list" where
  "dict_set [] k v = [(k, v)]"
| "dict_set ((k', v') # d) k v =
     (if k' = k then (k, v) # d else (k', v') # dict_set d k v)"

text \<open>\<^verbatim>\<open>d.get(k)\<close>: the value, or \<^verbatim>\<open>None\<close> for a key that is missing.\<close>

definition py_get :: "(string \<rightharpoonup> json) \<Rightarrow> string \<Rightarrow> json" where
  "py_get m k = (case m k of None \<Rightarrow> JNull | Some v \<Rightarrow> v)"

section \<open>Strings\<close>

text \<open>\<^verbatim>\<open>s.split(c)\<close> for a separator of one character, and \<^verbatim>\<open>sep.join(parts)\<close>.\<close>

fun split_on :: "char \<Rightarrow> string \<Rightarrow> string list" where
  "split_on c [] = [[]]"
| "split_on c (x # xs) =
     (if x = c then [] # split_on c xs
      else (case split_on c xs of
              [] \<Rightarrow> [[x]]
            | p # ps \<Rightarrow> (x # p) # ps))"

fun join :: "string \<Rightarrow> string list \<Rightarrow> string" where
  "join sep [] = []"
| "join sep [p] = p"
| "join sep (p # q # ps) = p @ sep @ join sep (q # ps)"

section \<open>pathlib: the ancestors of a POSIX path\<close>

text \<open>
  \<^verbatim>\<open>Path(name).parents\<close> and \<^verbatim>\<open>as_posix()\<close> of CPython 3.11's \<^verbatim>\<open>pathlib\<close>, for
  the POSIX flavour (the script runs where \<^verbatim>\<open>vml\<close> runs, with
  \<^verbatim>\<open>/usr/bin/python3\<close>). A POSIX path has no drive.

  \<^verbatim>\<open>_PosixFlavour.splitroot\<close>: the root is \<^verbatim>\<open>//\<close> for exactly two leading
  slashes, \<^verbatim>\<open>/\<close> for one or for three and more, empty otherwise.
\<close>

definition splitroot :: "string \<Rightarrow> string \<times> string" where
  "splitroot part =
     (if part \<noteq> [] \<and> hd part = CHR ''/'' then
        (let stripped_part = dropWhile (\<lambda>c. c = CHR ''/'') part in
         if length part - length stripped_part = 2 then (''//'', stripped_part)
         else (''/'', stripped_part))
      else ([], part))"

text \<open>
  \<^verbatim>\<open>_Flavour.parse_parts\<close> for the one argument of \<^verbatim>\<open>Path(name)\<close>: the root and
  the list \<^verbatim>\<open>_parts\<close>, whose first element is the root when there is one.
  Empty components and \<^verbatim>\<open>.\<close> are dropped, \<^verbatim>\<open>..\<close> is kept.
\<close>

definition parse_parts :: "string \<Rightarrow> string \<times> string list" where
  "parse_parts part =
     (if part = [] then ([], [])
      else
        (let (rt, rel) = splitroot part;
             parsed =
               (if CHR ''/'' \<in> set rel
                then filter (\<lambda>x. x \<noteq> [] \<and> x \<noteq> ''.'') (split_on CHR ''/'' rel)
                else if rel \<noteq> [] \<and> rel \<noteq> ''.'' then [rel] else [])
         in (rt, if rt \<noteq> [] then rt # parsed else parsed)))"

text \<open>
  \<^verbatim>\<open>str(path)\<close>, which \<^verbatim>\<open>as_posix()\<close> returns unchanged on POSIX:
  \<^verbatim>\<open>_format_parsed_parts(drv, root, parts) or '.'\<close>.
\<close>

definition format_parsed_parts :: "string \<Rightarrow> string list \<Rightarrow> string" where
  "format_parsed_parts rt parts =
     (if rt \<noteq> [] then rt @ join ''/'' (tl parts) else join ''/'' parts)"

definition as_posix :: "string \<Rightarrow> string list \<Rightarrow> string" where
  "as_posix rt parts =
     (let s = format_parsed_parts rt parts in if s = [] then ''.'' else s)"

text \<open>
  \<^verbatim>\<open>_PathParents\<close>: \<^verbatim>\<open>len\<close> is the number of parts without the root, and item
  \<^verbatim>\<open>idx\<close> is the path of \<^verbatim>\<open>_parts[:-idx - 1]\<close>. Iterating yields items
  \<^verbatim>\<open>0, 1, ..., len - 1\<close>.
\<close>

definition parents_len :: "string \<Rightarrow> string list \<Rightarrow> nat" where
  "parents_len rt parts = (if rt \<noteq> [] then length parts - 1 else length parts)"

definition parents_item :: "string \<Rightarrow> string list \<Rightarrow> nat \<Rightarrow> string" where
  "parents_item rt parts idx = as_posix rt (take (length parts - (idx + 1)) parts)"

text \<open>\<^verbatim>\<open>[p.as_posix() for p in Path(name).parents]\<close>\<close>

definition parents_posix :: "string \<Rightarrow> string list" where
  "parents_posix nm =
     (let (rt, parts) = parse_parts nm
      in map (parents_item rt parts) [0..<parents_len rt parts])"

text \<open>
  The groups of one VM name, in the order the inner loop of \<^verbatim>\<open>groups\<close> visits
  them: \<^verbatim>\<open>[p.as_posix() for p in Path(name).parents][:-1]\<close>.
\<close>

definition name_groups :: "string \<Rightarrow> string list" where
  "name_groups nm = butlast (parents_posix nm)"

section \<open>ipaddress: the address of an interface\<close>

text \<open>
  \<^verbatim>\<open>str(ipaddress.ip_interface(cidr).ip)\<close> of CPython 3.11's \<^verbatim>\<open>ipaddress\<close>. The two
  exceptions \<^verbatim>\<open>AddressValueError\<close> and \<^verbatim>\<open>NetmaskValueError\<close> that the module raises
  inside are subclasses of \<^verbatim>\<open>ValueError\<close>; a function that raises one of them
  returns \<open>None\<close> here.
\<close>

subsection \<open>Numbers in strings\<close>

text \<open>\<^verbatim>\<open>s.isascii() and s.isdigit()\<close>\<close>

definition is_digit :: "char \<Rightarrow> bool" where
  "is_digit c = (48 \<le> (of_char c :: nat) \<and> (of_char c :: nat) \<le> 57)"

definition isascii_isdigit :: "string \<Rightarrow> bool" where
  "isascii_isdigit s = (s \<noteq> [] \<and> list_all is_digit s)"

text \<open>\<^verbatim>\<open>_HEX_DIGITS = frozenset('0123456789ABCDEFabcdef')\<close>\<close>

definition is_hex_digit :: "char \<Rightarrow> bool" where
  "is_hex_digit c =
     (let n = (of_char c :: nat)
      in (48 \<le> n \<and> n \<le> 57) \<or> (65 \<le> n \<and> n \<le> 70) \<or> (97 \<le> n \<and> n \<le> 102))"

definition digit_value :: "char \<Rightarrow> int" where
  "digit_value c =
     (let n = (of_char c :: nat)
      in if 48 \<le> n \<and> n \<le> 57 then int (n - 48)
         else if 97 \<le> n \<and> n \<le> 102 then int (n - 87)
         else int (n - 55))"

text \<open>\<^verbatim>\<open>int(s, base)\<close> for a string of digits of the base.\<close>

definition int_of_str :: "int \<Rightarrow> string \<Rightarrow> int" where
  "int_of_str base s = fold (\<lambda>c n. base * n + digit_value c) s 0"

text \<open>\<^verbatim>\<open>sys.get_int_max_str_digits()\<close>: \<^verbatim>\<open>int(s)\<close> raises \<^verbatim>\<open>ValueError\<close> beyond it.\<close>

definition int_max_str_digits :: nat where
  "int_max_str_digits = 4300"

text \<open>\<^verbatim>\<open>str(n)\<close> and \<^verbatim>\<open>'%x' % n\<close> for a number that is not negative.\<close>

definition digit_char :: "int \<Rightarrow> char" where
  "digit_char d = (if d < 10 then char_of (48 + d) else char_of (87 + d))"

function digits_of :: "int \<Rightarrow> int \<Rightarrow> string" where
  "digits_of base n =
     (if base < 2 \<or> n < base then [digit_char n]
      else digits_of base (n div base) @ [digit_char (n mod base)])"
  by pat_completeness auto
termination
  by (relation "measure (\<lambda>(base, n). nat n)") (auto simp: int_div_less_self)

declare digits_of.simps [simp del]

definition str_int :: "int \<Rightarrow> string" where
  "str_int n = digits_of 10 n"

definition hex_str :: "int \<Rightarrow> string" where
  "hex_str n = digits_of 16 n"

subsection \<open>IPv4\<close>

definition ALL_ONES4 :: int where
  "ALL_ONES4 = 2 ^ 32 - 1"

definition ALL_ONES6 :: int where
  "ALL_ONES6 = 2 ^ 128 - 1"

text \<open>\<^verbatim>\<open>_check_int_address\<close>: the address is neither negative nor above all ones.\<close>

definition check_int_address :: "int \<Rightarrow> int \<Rightarrow> bool" where
  "check_int_address all_ones address = (\<not> address < 0 \<and> \<not> address > all_ones)"

text \<open>\<^verbatim>\<open>_BaseV4._parse_octet\<close>\<close>

definition parse_octet :: "string \<Rightarrow> int option" where
  "parse_octet octet_str =
     (if octet_str = [] then None
      else if \<not> isascii_isdigit octet_str then None
      else if length octet_str > 3 then None
      else if octet_str \<noteq> ''0'' \<and> hd octet_str = CHR ''0'' then None
      else (let octet_int = int_of_str 10 octet_str
            in if octet_int > 255 then None else Some octet_int))"

text \<open>\<^verbatim>\<open>int.from_bytes(bs, 'big')\<close> and \<^verbatim>\<open>n.to_bytes(4, 'big')\<close>\<close>

definition from_bytes :: "int list \<Rightarrow> int" where
  "from_bytes bs = fold (\<lambda>b n. 256 * n + b) bs 0"

definition to_bytes4 :: "int \<Rightarrow> int list" where
  "to_bytes4 n =
     [n div 16777216 mod 256, n div 65536 mod 256, n div 256 mod 256, n mod 256]"

text \<open>\<^verbatim>\<open>_BaseV4._ip_int_from_string\<close>\<close>

definition ip_int_from_string4 :: "string \<Rightarrow> int option" where
  "ip_int_from_string4 ip_str =
     (if ip_str = [] then None
      else (let octets = split_on CHR ''.'' ip_str
            in if length octets \<noteq> 4 then None
               else map_option from_bytes (those (map parse_octet octets))))"

text \<open>\<^verbatim>\<open>_BaseV4._string_from_ip_int\<close>\<close>

definition string_from_ip_int4 :: "int \<Rightarrow> string" where
  "string_from_ip_int4 ip_int = join ''.'' (map str_int (to_bytes4 ip_int))"

text \<open>\<^verbatim>\<open>IPv4Address(address)\<close> for a string: the value of \<^verbatim>\<open>_ip\<close>.\<close>

definition IPv4Address_str :: "string \<Rightarrow> int option" where
  "IPv4Address_str addr_str =
     (if CHR ''/'' \<in> set addr_str then None else ip_int_from_string4 addr_str)"

subsection \<open>Netmasks\<close>

text \<open>\<^verbatim>\<open>n.bit_length()\<close>\<close>

function bit_length :: "int \<Rightarrow> nat" where
  "bit_length n = (if n = 0 then 0 else Suc (bit_length (\<bar>n\<bar> div 2)))"
  by pat_completeness auto
termination
  by (relation "measure (\<lambda>n. nat \<bar>n\<bar>)") auto

declare bit_length.simps [simp del]

text \<open>\<^verbatim>\<open>_count_righthand_zero_bits\<close>\<close>

definition count_righthand_zero_bits :: "int \<Rightarrow> nat \<Rightarrow> nat" where
  "count_righthand_zero_bits number bits =
     (if number = 0 then bits
      else min bits (bit_length (and (not number) (number - 1))))"

text \<open>\<^verbatim>\<open>_prefix_from_ip_int\<close>: \<open>None\<close> when the mask mixes zeroes and ones.\<close>

definition prefix_from_ip_int :: "nat \<Rightarrow> int \<Rightarrow> nat option" where
  "prefix_from_ip_int max_prefixlen ip_int =
     (let trailing_zeroes = count_righthand_zero_bits ip_int max_prefixlen;
          prefixlen = max_prefixlen - trailing_zeroes;
          leading_ones = drop_bit trailing_zeroes ip_int;
          all_ones = push_bit prefixlen 1 - 1
      in if leading_ones \<noteq> all_ones then None else Some prefixlen)"

text \<open>\<^verbatim>\<open>_prefix_from_prefix_string\<close>\<close>

definition prefix_from_prefix_string :: "nat \<Rightarrow> string \<Rightarrow> nat option" where
  "prefix_from_prefix_string max_prefixlen prefixlen_str =
     (if \<not> isascii_isdigit prefixlen_str then None
      else if length prefixlen_str > int_max_str_digits then None
      else (let prefixlen = int_of_str 10 prefixlen_str
            in if \<not> (0 \<le> prefixlen \<and> prefixlen \<le> int max_prefixlen) then None
               else Some (nat prefixlen)))"

text \<open>\<^verbatim>\<open>_prefix_from_ip_string\<close>, which only \<^verbatim>\<open>IPv4Network\<close> calls.\<close>

definition prefix_from_ip_string4 :: "string \<Rightarrow> nat option" where
  "prefix_from_ip_string4 ip_str =
     (case ip_int_from_string4 ip_str of
        None \<Rightarrow> None
      | Some ip_int \<Rightarrow>
          (case prefix_from_ip_int 32 ip_int of
             Some prefixlen \<Rightarrow> Some prefixlen
           | None \<Rightarrow> prefix_from_ip_int 32 (xor ip_int ALL_ONES4)))"

text \<open>
  \<^verbatim>\<open>_make_netmask\<close> for a mask given as a string: the prefix length. The netmask
  itself cannot fail to be built and does not reach \<^verbatim>\<open>.ip\<close>.
\<close>

definition make_netmask4 :: "string \<Rightarrow> nat option" where
  "make_netmask4 arg =
     (case prefix_from_prefix_string 32 arg of
        Some prefixlen \<Rightarrow> Some prefixlen
      | None \<Rightarrow> prefix_from_ip_string4 arg)"

definition make_netmask6 :: "string \<Rightarrow> nat option" where
  "make_netmask6 arg = prefix_from_prefix_string 128 arg"

text \<open>
  \<^verbatim>\<open>_split_optional_netmask\<close> and \<^verbatim>\<open>_split_addr_prefix\<close> for a string: the address
  and the mask, where no mask stands for the integer \<^verbatim>\<open>_max_prefixlen\<close>.
\<close>

definition split_optional_netmask :: "string \<Rightarrow> string list option" where
  "split_optional_netmask address =
     (let addr = split_on CHR ''/'' address
      in if length addr > 2 then None else Some addr)"

definition split_addr_prefix :: "string \<Rightarrow> (string \<times> string option) option" where
  "split_addr_prefix address =
     (case split_optional_netmask address of
        None \<Rightarrow> None
      | Some addr \<Rightarrow>
          if length addr > 1 then Some (addr ! 0, Some (addr ! 1))
          else Some (addr ! 0, None))"

subsection \<open>IPv6\<close>

text \<open>\<^verbatim>\<open>_BaseV6._parse_hextet\<close>; \<^verbatim>\<open>int('', 16)\<close> raises \<^verbatim>\<open>ValueError\<close>.\<close>

definition parse_hextet :: "string \<Rightarrow> int option" where
  "parse_hextet hextet_str =
     (if \<not> list_all is_hex_digit hextet_str then None
      else if length hextet_str > 4 then None
      else if hextet_str = [] then None
      else Some (int_of_str 16 hextet_str))"

text \<open>
  The loop of \<^verbatim>\<open>_ip_int_from_string\<close> that looks for the one \<^verbatim>\<open>::\<close> between
  the end points: \<open>None\<close> when there is a second one, otherwise \<^verbatim>\<open>skip_index\<close>.
\<close>

definition find_skip_index :: "string list \<Rightarrow> nat option option" where
  "find_skip_index parts =
     fold (\<lambda>i acc.
             case acc of
               None \<Rightarrow> None
             | Some skip_index \<Rightarrow>
                 if parts ! i = [] then
                   (if skip_index \<noteq> None then None else Some (Some i))
                 else Some skip_index)
          [1..<length parts - 1] (Some None)"

text \<open>
  The two loops that shift the hextets in: \<^verbatim>\<open>ip_int <<= 16\<close>,
  \<^verbatim>\<open>ip_int |= cls._parse_hextet(part)\<close>.
\<close>

fun shift_hextets :: "string list \<Rightarrow> int \<Rightarrow> int option" where
  "shift_hextets [] ip_int = Some ip_int"
| "shift_hextets (part # parts) ip_int =
     (case parse_hextet part of
        None \<Rightarrow> None
      | Some h \<Rightarrow> shift_hextets parts (or (push_bit 16 ip_int) h))"

text \<open>\<^verbatim>\<open>_BaseV6._ip_int_from_string\<close>\<close>

definition ipv4_suffix :: "string list \<Rightarrow> string list option" where
  "ipv4_suffix parts =
     (if CHR ''.'' \<in> set (last parts) then
        (case IPv4Address_str (last parts) of
           None \<Rightarrow> None
         | Some ipv4_int \<Rightarrow>
             Some (butlast parts @
                   [hex_str (and (drop_bit 16 ipv4_int) 65535),
                    hex_str (and ipv4_int 65535)]))
      else Some parts)"

definition ip_int_from_string6 :: "string \<Rightarrow> int option" where
  "ip_int_from_string6 ip_str =
     (if ip_str = [] then None
      else if length (split_on CHR '':'' ip_str) < 3 then None
      else
        (case ipv4_suffix (split_on CHR '':'' ip_str) of
           None \<Rightarrow> None
         | Some parts \<Rightarrow>
             if length parts > 8 + 1 then None
             else
               (case find_skip_index parts of
                  None \<Rightarrow> None
                | Some (Some skip_index) \<Rightarrow>
                    (let parts_hi = skip_index;
                         parts_lo = length parts - skip_index - 1
                     in if hd parts = [] \<and> parts_hi - 1 \<noteq> 0 then None
                        else if last parts = [] \<and> parts_lo - 1 \<noteq> 0 then None
                        else
                          (let parts_hi = (if hd parts = [] then parts_hi - 1 else parts_hi);
                               parts_lo = (if last parts = [] then parts_lo - 1 else parts_lo)
                           in if 8 < parts_hi + parts_lo + 1 then None
                              else
                                (case shift_hextets (take parts_hi parts) 0 of
                                   None \<Rightarrow> None
                                 | Some ip_int \<Rightarrow>
                                     shift_hextets
                                       (drop (length parts - parts_lo) parts)
                                       (push_bit (16 * (8 - (parts_hi + parts_lo))) ip_int))))
                | Some None \<Rightarrow>
                    if length parts \<noteq> 8 then None
                    else if hd parts = [] then None
                    else if last parts = [] then None
                    else shift_hextets parts 0)))"

text \<open>
  \<^verbatim>\<open>_BaseV6._compress_hextets\<close>: the loop keeps the start and the length of the
  best and of the current run of \<^verbatim>\<open>'0'\<close> hextets (\<open>-1\<close> for no start).
\<close>

definition compress_step :: "nat \<times> string \<Rightarrow> int \<times> int \<times> int \<times> int \<Rightarrow> int \<times> int \<times> int \<times> int" where
  "compress_step ih st =
     (case st of (best_doublecolon_start, best_doublecolon_len, doublecolon_start, doublecolon_len) \<Rightarrow>
      case ih of (index, hextet) \<Rightarrow>
        if hextet = ''0'' then
          (let doublecolon_len = doublecolon_len + 1;
               doublecolon_start = (if doublecolon_start = -1 then int index else doublecolon_start)
           in if doublecolon_len > best_doublecolon_len
              then (doublecolon_start, doublecolon_len, doublecolon_start, doublecolon_len)
              else (best_doublecolon_start, best_doublecolon_len, doublecolon_start, doublecolon_len))
        else (best_doublecolon_start, best_doublecolon_len, -1, 0))"

definition compress_hextets :: "string list \<Rightarrow> string list" where
  "compress_hextets hextets =
     (case fold compress_step (enumerate 0 hextets) (-1, 0, -1, 0) of
        (best_doublecolon_start, best_doublecolon_len, _, _) \<Rightarrow>
          if best_doublecolon_len > 1 then
            (let best_doublecolon_end = best_doublecolon_start + best_doublecolon_len;
                 hextets1 = (if best_doublecolon_end = int (length hextets)
                             then hextets @ [[]] else hextets);
                 hextets2 = take (nat best_doublecolon_start) hextets1 @ [[]]
                              @ drop (nat best_doublecolon_end) hextets1
             in if best_doublecolon_start = 0 then [[]] @ hextets2 else hextets2)
          else hextets)"

text \<open>\<^verbatim>\<open>'%032x' % ip_int\<close>\<close>

definition hex32 :: "int \<Rightarrow> string" where
  "hex32 ip_int =
     (let h = hex_str ip_int in replicate (32 - length h) CHR ''0'' @ h)"

text \<open>\<^verbatim>\<open>_BaseV6._string_from_ip_int\<close>\<close>

definition string_from_ip_int6 :: "int \<Rightarrow> string" where
  "string_from_ip_int6 ip_int =
     (let hex_str32 = hex32 ip_int;
          hextets = map (\<lambda>x. hex_str (int_of_str 16 (take 4 (drop x hex_str32))))
                        [0, 4, 8, 12, 16, 20, 24, 28]
      in join '':'' (compress_hextets hextets))"

text \<open>\<^verbatim>\<open>_BaseV6._split_scope_id\<close>, which is \<^verbatim>\<open>ip_str.partition('%')\<close> and a check.\<close>

definition split_scope_id :: "string \<Rightarrow> (string \<times> string option) option" where
  "split_scope_id ip_str =
     (let addr = takeWhile (\<lambda>c. c \<noteq> CHR ''%'') ip_str;
          rest = dropWhile (\<lambda>c. c \<noteq> CHR ''%'') ip_str
      in if rest = [] then Some (addr, None)
         else if tl rest = [] \<or> CHR ''%'' \<in> set (tl rest) then None
         else Some (addr, Some (tl rest)))"

text \<open>\<^verbatim>\<open>IPv6Address(address)\<close> for a string: the value of \<^verbatim>\<open>_ip\<close>.\<close>

definition IPv6Address_str :: "string \<Rightarrow> int option" where
  "IPv6Address_str addr_str =
     (if CHR ''/'' \<in> set addr_str then None
      else (case split_scope_id addr_str of
              None \<Rightarrow> None
            | Some (addr, scope_id) \<Rightarrow> ip_int_from_string6 addr))"

subsection \<open>Interfaces\<close>

text \<open>
  An interface object, as far as the script reads it: the version, \<^verbatim>\<open>_ip\<close> and
  \<^verbatim>\<open>_prefixlen\<close>. (\<^verbatim>\<open>.ip\<close> is \<^verbatim>\<open>IPv6Address(self._ip)\<close>, without the scope id.)
\<close>

datatype interface = IPv4Interface int nat | IPv6Interface int nat

text \<open>
  \<^verbatim>\<open>IPv4Interface(address)\<close> and \<^verbatim>\<open>IPv6Interface(address)\<close>, for an \<^verbatim>\<open>int\<close> and for
  a \<^verbatim>\<open>str\<close>: the address is built first, then the network with
  \<^verbatim>\<open>strict=False\<close>, which builds the address again and the netmask.
\<close>

definition IPv4Interface_int :: "int \<Rightarrow> interface option" where
  "IPv4Interface_int address =
     (if check_int_address ALL_ONES4 address then Some (IPv4Interface address 32) else None)"

definition IPv6Interface_int :: "int \<Rightarrow> interface option" where
  "IPv6Interface_int address =
     (if check_int_address ALL_ONES6 address then Some (IPv6Interface address 128) else None)"

definition IPv4Interface_str :: "string \<Rightarrow> interface option" where
  "IPv4Interface_str address =
     (case split_addr_prefix address of
        None \<Rightarrow> None
      | Some (addr, msk) \<Rightarrow>
          (case IPv4Address_str addr of
             None \<Rightarrow> None
           | Some ip \<Rightarrow>
               (case msk of
                  None \<Rightarrow> Some (IPv4Interface ip 32)
                | Some m \<Rightarrow> map_option (IPv4Interface ip) (make_netmask4 m))))"

definition IPv6Interface_str :: "string \<Rightarrow> interface option" where
  "IPv6Interface_str address =
     (case split_addr_prefix address of
        None \<Rightarrow> None
      | Some (addr, msk) \<Rightarrow>
          (case IPv6Address_str addr of
             None \<Rightarrow> None
           | Some ip \<Rightarrow>
               (case msk of
                  None \<Rightarrow> Some (IPv6Interface ip 128)
                | Some m \<Rightarrow> map_option (IPv6Interface ip) (make_netmask6 m))))"

text \<open>
  \<^verbatim>\<open>ipaddress.ip_interface(address)\<close>: IPv4 first, then IPv6, then
  \<^verbatim>\<open>ValueError\<close>. A \<^verbatim>\<open>bool\<close> is an \<^verbatim>\<open>int\<close>. Every other value goes through
  \<^verbatim>\<open>str(address)\<close>, and no address starts like these do: \<^verbatim>\<open>None\<close>, a \<^verbatim>\<open>float\<close>
  (no colon and one dot at most), a \<^verbatim>\<open>list\<close> (\<^verbatim>\<open>[\<close>) or a \<^verbatim>\<open>dict\<close> (\<^verbatim>\<open>{\<close>).
\<close>

definition ip_interface_int :: "int \<Rightarrow> interface option" where
  "ip_interface_int address =
     (case IPv4Interface_int address of
        Some i \<Rightarrow> Some i
      | None \<Rightarrow> IPv6Interface_int address)"

definition ip_interface_str :: "string \<Rightarrow> interface option" where
  "ip_interface_str address =
     (case IPv4Interface_str address of
        Some i \<Rightarrow> Some i
      | None \<Rightarrow> IPv6Interface_str address)"

fun ip_interface :: "json \<Rightarrow> interface option" where
  "ip_interface (JInt n) = ip_interface_int n"
| "ip_interface (JBool b) = ip_interface_int (if b then 1 else 0)"
| "ip_interface (JStr s) = ip_interface_str s"
| "ip_interface JNull = None"
| "ip_interface (JFloat r) = None"
| "ip_interface (JList xs) = None"
| "ip_interface (JObj kvs) = None"

text \<open>\<^verbatim>\<open>str(interface.ip)\<close>\<close>

fun str_ip :: "interface \<Rightarrow> string" where
  "str_ip (IPv4Interface ip prefixlen) = string_from_ip_int4 ip"
| "str_ip (IPv6Interface ip prefixlen) = string_from_ip_int6 ip"

section \<open>The inventory builder\<close>

text \<open>
  One record of the list that \<^verbatim>\<open>json.loads\<close> returns: a JSON object with a string
  under \<^verbatim>\<open>"name"\<close>. \<open>name\<close> is \<^verbatim>\<open>vm["name"]\<close> and \<open>members\<close> holds the members that
  \<^verbatim>\<open>vm.get\<close> reads. (A record without a name, or with a name that is no string,
  is not an input of this model: the script would stop at \<^verbatim>\<open>vm["name"]\<close> or at
  \<^verbatim>\<open>Path(name)\<close>.)
\<close>

record vm =
  name :: string
  members :: "string \<rightharpoonup> json"

text \<open>The attributes of an \<^verbatim>\<open>InventoryBuilder\<close>.\<close>

record builder =
  vms :: "vm list"
  names :: "string list"
  inventory :: dict

text \<open>
  \<^verbatim>\<open>x[k]\<close> and \<^verbatim>\<open>x[k] = v\<close> with a string \<^verbatim>\<open>k\<close>: \<^verbatim>\<open>KeyError\<close> for a dictionary
  without the key, \<^verbatim>\<open>TypeError\<close> for a value that is no dictionary.
\<close>

fun subscript :: "json \<Rightarrow> string \<Rightarrow> error + json" where
  "subscript (JObj d) k = (case dict_get d k of None \<Rightarrow> Inl KeyError | Some v \<Rightarrow> Inr v)"
| "subscript x k = Inl TypeError"

fun store :: "json \<Rightarrow> string \<Rightarrow> json \<Rightarrow> error + json" where
  "store (JObj d) k v = Inr (JObj (dict_set d k v))"
| "store x k v = Inl TypeError"

text \<open>
  \<^verbatim>\<open>InventoryBuilder.__init__\<close>, given the list that the \<^verbatim>\<open>vml\<close> command printed.
\<close>

definition init :: "vm list \<Rightarrow> builder" where
  "init vs =
     \<lparr>vms = vs,
      names = map name vs,
      inventory =
        [(''all'',
            JObj [(''hosts'', JList (map JStr (map name vs))),
                  (''vars'', JObj [(''ansible_python_interpreter'', JStr ''/usr/bin/python3'')])]),
         (''_meta'', JObj [(''hostvars'', JObj [])])]\<rparr>"

subsection \<open>Host variables\<close>

text \<open>
  \<^verbatim>\<open>if x := vm.get(field): host_vars[var] = x\<close>
\<close>

definition set_var :: "vm \<Rightarrow> string \<Rightarrow> string \<Rightarrow> dict \<Rightarrow> dict" where
  "set_var v field var host_vars =
     (let x = py_get (members v) field
      in if truthy x then dict_set host_vars var x else host_vars)"

text \<open>
  The body of the loop of \<^verbatim>\<open>hostvars\<close> up to \<^verbatim>\<open>if host_vars:\<close>: the dictionary
  \<^verbatim>\<open>host_vars\<close> of one record, or the \<^verbatim>\<open>ValueError\<close> of \<^verbatim>\<open>ip_interface\<close>.
\<close>

definition host_vars_of :: "vm \<Rightarrow> error + dict" where
  "host_vars_of v =
     (let host_vars = [];
          host_vars = set_var v ''ssh_host'' ''ansible_host'' host_vars;
          host_vars = set_var v ''ssh_port'' ''ansible_port'' host_vars;
          host_vars = set_var v ''ssh_user'' ''ansible_user'' host_vars;
          host_vars = set_var v ''ssh_key'' ''ansible_ssh_private_key_file'' host_vars;
          host_vars = set_var v ''ssh_options'' ''ansible_ssh_common_args'' host_vars;
          cidr = py_get (members v) ''network_address''
      in if truthy cidr then
           (case ip_interface cidr of
              None \<Rightarrow> Inl ValueError
            | Some interface \<Rightarrow>
                Inr (dict_set (dict_set host_vars ''network_cidr'' cidr)
                       ''network_address'' (JStr (str_ip interface))))
         else Inr host_vars)"

text \<open>
  \<^verbatim>\<open>self.inventory["_meta"]["hostvars"][name] = host_vars\<close>. The two inner
  dictionaries are changed in place, so they keep their places.
\<close>

definition store_hostvars :: "dict \<Rightarrow> string \<Rightarrow> dict \<Rightarrow> error + dict" where
  "store_hostvars doc nm host_vars =
     (case subscript (JObj doc) ''_meta'' of
        Inl e \<Rightarrow> Inl e
      | Inr meta \<Rightarrow>
          (case subscript meta ''hostvars'' of
             Inl e \<Rightarrow> Inl e
           | Inr hvs \<Rightarrow>
               (case store hvs nm (JObj host_vars) of
                  Inl e \<Rightarrow> Inl e
                | Inr hvs' \<Rightarrow>
                    (case store meta ''hostvars'' hvs' of
                       Inl e \<Rightarrow> Inl e
                     | Inr meta' \<Rightarrow> Inr (dict_set doc ''_meta'' meta')))))"

fun hostvars_loop :: "vm list \<Rightarrow> dict \<Rightarrow> error + dict" where
  "hostvars_loop [] doc = Inr doc"
| "hostvars_loop (v # vs) doc =
     (case host_vars_of v of
        Inl e \<Rightarrow> Inl e
      | Inr host_vars \<Rightarrow>
          if host_vars \<noteq> [] then
            (case store_hostvars doc (name v) host_vars of
               Inl e \<Rightarrow> Inl e
             | Inr doc' \<Rightarrow> hostvars_loop vs doc')
          else hostvars_loop vs doc)"

text \<open>\<^verbatim>\<open>InventoryBuilder.hostvars\<close>\<close>

definition hostvars :: "builder \<Rightarrow> error + builder" where
  "hostvars ib =
     (case hostvars_loop (vms ib) (inventory ib) of
        Inl e \<Rightarrow> Inl e
      | Inr doc \<Rightarrow> Inr (ib\<lparr>inventory := doc\<rparr>))"

subsection \<open>Groups\<close>

text \<open>
  A Python \<^verbatim>\<open>set\<close> of strings is kept as the list of its elements in the order
  they were added. The order in which \<^verbatim>\<open>list(hosts)\<close> enumerates a set is
  not the order of insertion: it depends on the hashes of the strings, which
  change from one run of the interpreter to the next. The builder takes that
  order as a parameter \<open>enum\<close>; all that is known of it is that it enumerates
  every element once.
\<close>

type_synonym groupmap = "(string \<times> string list) list"

definition set_iteration :: "(string list \<Rightarrow> string list) \<Rightarrow> bool" where
  "set_iteration enum = (\<forall>s. mset (enum s) = mset s)"

text \<open>\<^verbatim>\<open>s.add(x)\<close>\<close>

definition set_add :: "string list \<Rightarrow> string \<Rightarrow> string list" where
  "set_add s x = (if x \<in> set s then s else s @ [x])"

text \<open>
  \<^verbatim>\<open>groups[group].add(name)\<close> on a \<^verbatim>\<open>defaultdict(set)\<close>: a group that is
  missing enters the dictionary with the empty set first.
\<close>

definition add_member :: "groupmap \<Rightarrow> string \<Rightarrow> string \<Rightarrow> groupmap" where
  "add_member groups grp nm =
     dict_set groups grp
       (set_add (case dict_get groups grp of None \<Rightarrow> [] | Some hosts \<Rightarrow> hosts) nm)"

text \<open>The two nested loops of \<^verbatim>\<open>groups\<close>.\<close>

definition build_groups :: "string list \<Rightarrow> groupmap" where
  "build_groups nms =
     fold (\<lambda>nm groups. fold (\<lambda>grp groups. add_member groups grp nm) (name_groups nm) groups)
          nms []"

text \<open>\<^verbatim>\<open>self.inventory[group] = {"hosts": list(hosts)}\<close>\<close>

definition group_entry :: "(string list \<Rightarrow> string list) \<Rightarrow> string list \<Rightarrow> json" where
  "group_entry enum hosts = JObj [(''hosts'', JList (map JStr (enum hosts)))]"

definition write_groups :: "(string list \<Rightarrow> string list) \<Rightarrow> groupmap \<Rightarrow> dict \<Rightarrow> dict" where
  "write_groups enum groups doc =
     fold (\<lambda>(grp, hosts) doc. dict_set doc grp (group_entry enum hosts)) groups doc"

text \<open>The part of \<^verbatim>\<open>groups\<close> under \<^verbatim>\<open>if groups:\<close>.\<close>

definition emit_groups :: "(string list \<Rightarrow> string list) \<Rightarrow> groupmap \<Rightarrow> dict \<Rightarrow> error + dict" where
  "emit_groups enum groups doc =
     (if groups \<noteq> [] then
        (case subscript (JObj doc) ''all'' of
           Inl e \<Rightarrow> Inl e
         | Inr all_entry \<Rightarrow>
             (case store all_entry ''children'' (JList (map JStr (map fst groups))) of
                Inl e \<Rightarrow> Inl e
              | Inr all_entry' \<Rightarrow>
                  Inr (write_groups enum groups (dict_set doc ''all'' all_entry'))))
      else Inr doc)"

text \<open>\<^verbatim>\<open>InventoryBuilder.groups\<close>\<close>

definition groups :: "(string list \<Rightarrow> string list) \<Rightarrow> builder \<Rightarrow> error + builder" where
  "groups enum ib =
     (case emit_groups enum (build_groups (names ib)) (inventory ib) of
        Inl e \<Rightarrow> Inl e
      | Inr doc \<Rightarrow> Inr (ib\<lparr>inventory := doc\<rparr>))"

subsection \<open>The run\<close>

text \<open>
  \<^verbatim>\<open>main\<close>: the document that \<^verbatim>\<open>json.dumps\<close> prints, or the exception that ends
  the run before anything is printed.
\<close>

definition main :: "(string list \<Rightarrow> string list) \<Rightarrow> vm list \<Rightarrow> error + dict" where
  "main enum vs =
     (case hostvars (init vs) of
        Inl e \<Rightarrow> Inl e
      | Inr ib \<Rightarrow>
          (case groups enum ib of
             Inl e \<Rightarrow> Inl e
           | Inr ib' \<Rightarrow> Inr (inventory ib')))"

text \<open>
  The two stages in the other order, which the script does not run: the
  claim that the order does not matter is about it.
\<close>

definition main_swapped :: "(string list \<Rightarrow> string list) \<Rightarrow> vm list \<Rightarrow> error + dict" where
  "main_swapped enum vs =
     (case groups enum (init vs) of
        Inl e \<Rightarrow> Inl e
      | Inr ib \<Rightarrow>
          (case hostvars ib of
             Inl e \<Rightarrow> Inl e
           | Inr ib' \<Rightarrow> Inr (inventory ib')))"

section \<open>Notions used to state the properties\<close>

text \<open>Reading a document along a path of keys: \<^verbatim>\<open>doc[k1][k2]...\<close>, if it is there.\<close>

fun get_path :: "json \<Rightarrow> string list \<Rightarrow> json option" where
  "get_path x [] = Some x"
| "get_path (JObj d) (k # ks) =
     (case dict_get d k of None \<Rightarrow> None | Some v \<Rightarrow> get_path v ks)"
| "get_path x (k # ks) = None"

text \<open>
  A record whose \<^verbatim>\<open>network_address\<close> is parsed and rejected: the value is true
  for \<^verbatim>\<open>if cidr := ...\<close> and \<^verbatim>\<open>ip_interface\<close> raises \<^verbatim>\<open>ValueError\<close> on it.
\<close>

definition bad_address :: "vm \<Rightarrow> bool" where
  "bad_address v =
     (truthy (py_get (members v) ''network_address'') \<and>
      ip_interface (py_get (members v) ''network_address'') = None)"

text \<open>
  What the loop of \<^verbatim>\<open>hostvars\<close> does to the dictionary under
  \<^verbatim>\<open>_meta.hostvars\<close> alone.
\<close>

fun collect :: "vm list \<Rightarrow> dict \<Rightarrow> error + dict" where
  "collect [] hvs = Inr hvs"
| "collect (v # vs) hvs =
     (case host_vars_of v of
        Inl e \<Rightarrow> Inl e
      | Inr host_vars \<Rightarrow>
          if host_vars \<noteq> [] then collect vs (dict_set hvs (name v) (JObj host_vars))
          else collect vs hvs)"

text \<open>
  The members of a group in a group map, the invariant of the map that the
  loops of \<^verbatim>\<open>groups\<close> build (distinct group names, no empty and no repeated
  member list), and the two loops with the map they start from.
\<close>

definition members_of :: "groupmap \<Rightarrow> string \<Rightarrow> string set" where
  "members_of g grp = (case dict_get g grp of None \<Rightarrow> {} | Some hosts \<Rightarrow> set hosts)"

definition wf_groups :: "groupmap \<Rightarrow> bool" where
  "wf_groups g =
     (distinct (map fst g) \<and> list_all (\<lambda>(grp, hosts). hosts \<noteq> [] \<and> distinct hosts) g)"

definition name_loop :: "string \<Rightarrow> string list \<Rightarrow> groupmap \<Rightarrow> groupmap" where
  "name_loop nm gs g = fold (\<lambda>grp groups. add_member groups grp nm) gs g"

definition names_loop :: "string list \<Rightarrow> groupmap \<Rightarrow> groupmap" where
  "names_loop nms g = fold (\<lambda>nm groups. name_loop nm (name_groups nm) groups) nms g"

text \<open>
  The document of a run that does not fail, written out: \<open>hvs\<close> is the
  dictionary under \<^verbatim>\<open>_meta.hostvars\<close> after the first stage.
\<close>

definition all_vars :: json where
  "all_vars = JObj [(''ansible_python_interpreter'', JStr ''/usr/bin/python3'')]"

definition document :: "(string list \<Rightarrow> string list) \<Rightarrow> vm list \<Rightarrow> dict \<Rightarrow> dict" where
  "document enum vs hvs =
     (let g = build_groups (map name vs);
          hosts = JList (map JStr (map name vs));
          meta = JObj [(''hostvars'', JObj hvs)]
      in if g = [] then [(''all'', JObj [(''hosts'', hosts), (''vars'', all_vars)]), (''_meta'', meta)]
         else write_groups enum g
                [(''all'', JObj [(''hosts'', hosts), (''vars'', all_vars),
                                 (''children'', JList (map JStr (map fst g)))]),
                 (''_meta'', meta)])"

text \<open>
  The six optional fields of a record, and the host variables that each of
  them produces.
\<close>

definition optional_fields :: "string list" where
  "optional_fields =
     [''ssh_host'', ''ssh_port'', ''ssh_user'', ''ssh_key'', ''ssh_options'', ''network_address'']"

definition produced_vars :: "string \<Rightarrow> string list" where
  "produced_vars f =
     (if f = ''ssh_host'' then [''ansible_host'']
      else if f = ''ssh_port'' then [''ansible_port'']
      else if f = ''ssh_user'' then [''ansible_user'']
      else if f = ''ssh_key'' then [''ansible_ssh_private_key_file'']
      else if f = ''ssh_options'' then [''ansible_ssh_common_args'']
      else if f = ''network_address'' then [''network_cidr'', ''network_address'']
      else [])"

text \<open>
  The invariant of the loop of \<^verbatim>\<open>_compress_hextets\<close>: a best run that is not empty
  has a start.
\<close>

definition run_ok :: "int \<times> int \<times> int \<times> int \<Rightarrow> bool" where
  "run_ok st = (case st of (bs, bl, s, l) \<Rightarrow> (bl = 0 \<or> 0 \<le> bs) \<and> -1 \<le> s \<and> 0 \<le> bl)"

text \<open>
  The host variables that \<^verbatim>\<open>hostvars\<close> has set when it reaches
  \<^verbatim>\<open>network_address\<close>: the five fields that are passed on as they are.
\<close>

definition passed_on :: "vm \<Rightarrow> dict" where
  "passed_on v =
     set_var v ''ssh_options'' ''ansible_ssh_common_args''
       (set_var v ''ssh_key'' ''ansible_ssh_private_key_file''
         (set_var v ''ssh_user'' ''ansible_user''
           (set_var v ''ssh_port'' ''ansible_port''
             (set_var v ''ssh_host'' ''ansible_host'' []))))"

text \<open>
  The groups of a name as the specification words them: a name of \<open>k\<close>
  segments between slashes has the \<open>k - 1\<close> prefixes of segments \<open>1..i\<close>, for
  \<open>i\<close> from 1 to \<open>k - 1\<close>. A name is clean when no segment is empty or a dot,
  which are the segments that \<^verbatim>\<open>pathlib\<close> drops.
\<close>

definition spec_groups :: "string \<Rightarrow> string list" where
  "spec_groups nm =
     (let segments = split_on CHR ''/'' nm
      in map (\<lambda>i. join ''/'' (take i segments)) [1..<length segments])"

definition clean_name :: "string \<Rightarrow> bool" where
  "clean_name nm = list_all (\<lambda>seg. seg \<noteq> [] \<and> seg \<noteq> ''.'') (split_on CHR ''/'' nm)"

text \<open>
  Two documents that are the same up to the order of their lists: the same
  keys in the same order, and under each key the same entry, where two lists
  are the same when they have the same elements, each as often. Two runs have
  the same outcome when they fail with the same error, or print documents that
  are the same in this sense.
\<close>

fun field_equiv :: "json \<Rightarrow> json \<Rightarrow> bool" where
  "field_equiv (JList xs) (JList ys) = (mset xs = mset ys)"
| "field_equiv x y = (x = y)"

fun entry_equiv :: "json \<Rightarrow> json \<Rightarrow> bool" where
  "entry_equiv (JObj f1) (JObj f2) =
     list_all2 (\<lambda>p q. fst p = fst q \<and> field_equiv (snd p) (snd q)) f1 f2"
| "entry_equiv x y = (x = y)"

definition doc_equiv :: "dict \<Rightarrow> dict \<Rightarrow> bool" where
  "doc_equiv d1 d2 = list_all2 (\<lambda>p q. fst p = fst q \<and> entry_equiv (snd p) (snd q)) d1 d2"

fun same_outcome :: "error + dict \<Rightarrow> error + dict \<Rightarrow> bool" where
  "same_outcome (Inl e1) (Inl e2) = (e1 = e2)"
| "same_outcome (Inr d1) (Inr d2) = doc_equiv d1 d2"
| "same_outcome r1 r2 = False"

text \<open>
  A syntactically valid CIDR string, which is what the specification asks of
  \<^verbatim>\<open>network_address\<close>: an IPv4 or an IPv6 address, a slash and a prefix length.
  These notions follow the text forms of the addresses and not the parser of
  \<^verbatim>\<open>ipaddress\<close>. A number is written as its decimal numeral, without leading
  zeroes. An IPv4 address is a dotted quad: four numbers up to 255 between
  dots; its prefix length is a number up to 32.
\<close>

definition decimal_upto :: "int \<Rightarrow> string \<Rightarrow> bool" where
  "decimal_upto n s = (s \<in> set (map str_int [0..n]))"

definition valid_ipv4 :: "string \<Rightarrow> bool" where
  "valid_ipv4 s =
     (let octets = split_on CHR ''.'' s
      in length octets = 4 \<and> list_all (decimal_upto 255) octets)"

text \<open>
  An IPv6 address is written in groups of 16 bits, each a hextet of one to
  four hexadecimal digits, between colons; the last two groups may be written
  as a dotted quad. The address has eight groups, or one double colon that
  stands for one or more groups that are zero and are left out. \<open>pieces\<close> is
  the number of groups that a text without a double colon stands for; the
  text before the double colon has no dotted quad. The prefix length is a
  number up to 128.
\<close>

definition hextet :: "string \<Rightarrow> bool" where
  "hextet h =
     (h \<noteq> [] \<and> length h \<le> 4 \<and> list_all (\<lambda>c. c \<in> set ''0123456789abcdefABCDEF'') h)"

fun split_dcolon :: "string \<Rightarrow> (string \<times> string) option" where
  "split_dcolon (x # y # s) =
     (if x = CHR '':'' \<and> y = CHR '':'' then Some ([], s)
      else (case split_dcolon (y # s) of
              None \<Rightarrow> None
            | Some (l, r) \<Rightarrow> Some (x # l, r)))"
| "split_dcolon s = None"

definition pieces :: "string \<Rightarrow> nat option" where
  "pieces s =
     (if s = [] then Some 0
      else (let ps = split_on CHR '':'' s
            in if list_all hextet ps then Some (length ps)
               else if list_all hextet (butlast ps) \<and> valid_ipv4 (last ps)
               then Some (length ps + 1)
               else None))"

definition valid_ipv6 :: "string \<Rightarrow> bool" where
  "valid_ipv6 s =
     (case split_dcolon s of
        None \<Rightarrow> pieces s = Some 8
      | Some (l, r) \<Rightarrow>
          (case (pieces l, pieces r) of
             (Some m, Some n) \<Rightarrow> CHR ''.'' \<notin> set l \<and> m + n \<le> 7
           | _ \<Rightarrow> False))"

definition valid_cidr :: "string \<Rightarrow> bool" where
  "valid_cidr s =
     (case split_on CHR ''/'' s of
        [addr, prefixlen] \<Rightarrow>
          (valid_ipv4 addr \<and> decimal_upto 32 prefixlen) \<or>
          (valid_ipv6 addr \<and> decimal_upto 128 prefixlen)
      | _ \<Rightarrow> False)"

text \<open>
  A record whose \<^verbatim>\<open>network_address\<close>, if it is present, is a valid CIDR string.
\<close>

definition cidr_or_absent :: "vm \<Rightarrow> bool" where
  "cidr_or_absent v =
     (case members v ''network_address'' of
        None \<Rightarrow> True
      | Some x \<Rightarrow> (case x of JStr s \<Rightarrow> valid_cidr s | _ \<Rightarrow> False))"

text \<open>
  The string \<^verbatim>\<open>a.b.c.d/p\<close> of five numbers, which has the shape of an IPv4 CIDR
  string whether the numbers are in range or not.
\<close>

definition dotted_cidr :: "int \<Rightarrow> int \<Rightarrow> int \<Rightarrow> int \<Rightarrow> int \<Rightarrow> string" where
  "dotted_cidr a b c d p =
     str_int a @ ''.'' @ str_int b @ ''.'' @ str_int c @ ''.'' @ str_int d @ ''/'' @ str_int p"

section \<open>Dictionaries\<close>

lemma dict_get_set: "dict_get (dict_set d k v) k' = (if k' = k then Some v else dict_get d k')"
  by (induction d) (auto simp: dict_get_def)

lemma keys_dict_set:
  "map fst (dict_set d k v) = (if k \<in> fst ` set d then map fst d else map fst d @ [k])"
  by (induction d) force+

lemma dict_set_not_Nil [simp]: "dict_set d k v \<noteq> []"
  by (cases d) (auto split: if_splits)

lemma dict_set_same: "dict_get d k = Some v \<Longrightarrow> dict_set d k v = d"
  by (induction d) (auto simp: dict_get_def split: if_splits)

lemma dict_set_twice: "dict_set (dict_set d k v) k w = dict_set d k w"
  by (induction d) auto

lemma dict_set_commute:
  "k1 \<noteq> k2 \<Longrightarrow> k1 \<in> fst ` set d \<Longrightarrow>
   dict_set (dict_set d k1 v1) k2 v2 = dict_set (dict_set d k2 v2) k1 v1"
  by (induction d) force+

section \<open>The host variables of one record\<close>

lemma set_var_absent: "members v f = None \<Longrightarrow> set_var v f x hv = hv"
  by (simp add: set_var_def py_get_def)

lemma ip_interface_str_example:
  "ip_interface_str ''10.0.0.5/24'' = Some (IPv4Interface 167772165 24)"
  by code_simp

lemma string_from_ip_int4_example: "string_from_ip_int4 167772165 = ''10.0.0.5''"
  by code_simp

lemma host_vars_of_error: "host_vars_of v = Inl e \<Longrightarrow> e = ValueError"
  by (auto simp: host_vars_of_def Let_def split: if_splits option.splits)

lemma host_vars_of_fails_iff: "(\<exists>e. host_vars_of v = Inl e) \<longleftrightarrow> bad_address v"
  by (auto simp: host_vars_of_def bad_address_def Let_def split: if_splits option.splits)

text \<open>
  C5. A record whose only optional field is
  \<^verbatim>\<open>network_address = "10.0.0.5/24"\<close> has exactly two host variables: the string
  as it came under \<^verbatim>\<open>network_cidr\<close>, and the address \<^verbatim>\<open>10.0.0.5\<close> without the
  prefix length under \<^verbatim>\<open>network_address\<close>.
\<close>

theorem network_address_only:
  assumes "members v ''network_address'' = Some (JStr ''10.0.0.5/24'')"
    and "members v ''ssh_host'' = None"
    and "members v ''ssh_port'' = None"
    and "members v ''ssh_user'' = None"
    and "members v ''ssh_key'' = None"
    and "members v ''ssh_options'' = None"
  shows "host_vars_of v =
           Inr [(''network_cidr'', JStr ''10.0.0.5/24''),
                (''network_address'', JStr ''10.0.0.5'')]"
  using assms
  by (simp add: host_vars_of_def set_var_absent py_get_def
        ip_interface_str_example string_from_ip_int4_example)

theorem network_address_only_witness:
  "host_vars_of \<lparr>name = ''team/web1'',
                  members = [''network_address'' \<mapsto> JStr ''10.0.0.5/24'']\<rparr> =
     Inr [(''network_cidr'', JStr ''10.0.0.5/24''),
          (''network_address'', JStr ''10.0.0.5'')]"
  using network_address_only
          [of "\<lparr>name = ''team/web1'',
                 members = [''network_address'' \<mapsto> JStr ''10.0.0.5/24'']\<rparr>"]
  by simp

section \<open>The group map\<close>

lemma build_groups_names_loop: "build_groups nms = names_loop nms []"
  by (simp add: build_groups_def names_loop_def name_loop_def)

lemma dom_dict_set: "fst ` set (dict_set d k v) = insert k (fst ` set d)"
proof -
  have "set (map fst (dict_set d k v)) = insert k (set (map fst d))"
    by (auto simp: keys_dict_set)
  then show ?thesis by simp
qed

lemma dict_get_Nil [simp]: "dict_get [] k = None"
  by (simp add: dict_get_def)

lemma dict_get_Cons: "dict_get ((k', v) # d) k = (if k = k' then Some v else dict_get d k)"
  by (simp add: dict_get_def)

lemma distinct_dict_set: "distinct (map fst d) \<Longrightarrow> distinct (map fst (dict_set d k v))"
  by (induction d) (auto simp: dom_dict_set)

lemma dict_get_None_iff: "dict_get d k = None \<longleftrightarrow> k \<notin> fst ` set d"
  by (simp add: dict_get_def map_of_eq_None_iff)

lemma dict_get_SomeD: "dict_get d k = Some v \<Longrightarrow> (k, v) \<in> set d"
  by (simp add: dict_get_def map_of_SomeD)

lemma dict_get_is_Some: "distinct (map fst d) \<Longrightarrow> (k, v) \<in> set d \<Longrightarrow> dict_get d k = Some v"
  by (simp add: dict_get_def)

lemma set_dict_set: "(k', v') \<in> set (dict_set d k v) \<Longrightarrow> (k', v') = (k, v) \<or> (k', v') \<in> set d"
  by (induction d) (auto split: if_splits)

lemma dom_add_member: "fst ` set (add_member g grp nm) = insert grp (fst ` set g)"
  by (simp add: add_member_def dom_dict_set)

lemma members_of_add_member:
  "members_of (add_member g grp nm) grp' =
     (if grp' = grp then insert nm (members_of g grp) else members_of g grp')"
  by (auto simp: members_of_def add_member_def dict_get_set set_add_def split: option.splits)

lemma wf_groups_add_member: "wf_groups g \<Longrightarrow> wf_groups (add_member g grp nm)"
  unfolding wf_groups_def add_member_def list_all_iff
  by (auto simp: distinct_dict_set set_add_def dest!: set_dict_set dict_get_SomeD split: option.splits)

lemma dom_name_loop: "fst ` set (name_loop nm gs g) = fst ` set g \<union> set gs"
  unfolding name_loop_def by (induction gs arbitrary: g) (auto simp: dom_add_member)

lemma members_of_name_loop:
  "members_of (name_loop nm gs g) grp =
     members_of g grp \<union> (if grp \<in> set gs then {nm} else {})"
  unfolding name_loop_def by (induction gs arbitrary: g) (auto simp: members_of_add_member)

lemma wf_groups_name_loop: "wf_groups g \<Longrightarrow> wf_groups (name_loop nm gs g)"
  unfolding name_loop_def by (induction gs arbitrary: g) (auto simp: wf_groups_add_member)

lemma dom_names_loop:
  "fst ` set (names_loop nms g) = fst ` set g \<union> (\<Union>nm\<in>set nms. set (name_groups nm))"
  unfolding names_loop_def by (induction nms arbitrary: g) (auto simp: dom_name_loop)

lemma members_of_names_loop:
  "members_of (names_loop nms g) grp =
     members_of g grp \<union> {nm \<in> set nms. grp \<in> set (name_groups nm)}"
  unfolding names_loop_def by (induction nms arbitrary: g) (auto simp: members_of_name_loop)

lemma wf_groups_names_loop: "wf_groups g \<Longrightarrow> wf_groups (names_loop nms g)"
  unfolding names_loop_def by (induction nms arbitrary: g) (auto simp: wf_groups_name_loop)

lemma dom_build_groups:
  "fst ` set (build_groups nms) = (\<Union>nm\<in>set nms. set (name_groups nm))"
  by (simp add: build_groups_names_loop dom_names_loop)

lemma members_of_build_groups:
  "members_of (build_groups nms) grp = {nm \<in> set nms. grp \<in> set (name_groups nm)}"
  by (simp add: build_groups_names_loop members_of_names_loop) (simp add: members_of_def)

lemma wf_build_groups: "wf_groups (build_groups nms)"
  using wf_groups_names_loop [of "[]" nms] by (simp add: build_groups_names_loop wf_groups_def)

lemma write_groups_Cons:
  "write_groups enum ((grp, hosts) # g) d = write_groups enum g (dict_set d grp (group_entry enum hosts))"
  by (simp add: write_groups_def)

lemma write_groups_Nil [simp]: "write_groups enum [] d = d"
  by (simp add: write_groups_def)

lemma dict_get_write_groups:
  "distinct (map fst g) \<Longrightarrow>
   dict_get (write_groups enum g d) k =
     (case dict_get g k of Some hosts \<Rightarrow> Some (group_entry enum hosts) | None \<Rightarrow> dict_get d k)"
proof (induction g arbitrary: d)
  case Nil
  then show ?case by simp
next
  case (Cons p g)
  obtain grp hosts where p: "p = (grp, hosts)" by (cases p)
  from Cons.prems p have d: "distinct (map fst g)" and n: "grp \<notin> fst ` set g" by auto
  from n have "dict_get g grp = None" by (simp add: dict_get_None_iff)
  then show ?case
    using Cons.IH [OF d] p
    by (auto simp: write_groups_Cons dict_get_set dict_get_Cons split: option.splits)
qed

lemma dom_write_groups: "fst ` set (write_groups enum g d) = fst ` set d \<union> fst ` set g"
proof (induction g arbitrary: d)
  case Nil
  then show ?case by simp
next
  case (Cons p g)
  then show ?case by (cases p) (auto simp: write_groups_Cons dom_dict_set)
qed

lemma write_groups_commute:
  "k \<notin> fst ` set g \<Longrightarrow> k \<in> fst ` set d \<Longrightarrow>
   dict_set (write_groups enum g d) k v = write_groups enum g (dict_set d k v)"
proof (induction g arbitrary: d)
  case Nil
  then show ?case by simp
next
  case (Cons p g)
  obtain grp hosts where p: "p = (grp, hosts)" by (cases p)
  with Cons.prems have ne: "k \<noteq> grp" and n: "k \<notin> fst ` set g" by auto
  have "k \<in> fst ` set (dict_set d grp (group_entry enum hosts))"
    using Cons.prems(2) by (simp add: dom_dict_set)
  from Cons.IH [OF n this] show ?case
    using p dict_set_commute [OF ne Cons.prems(2), symmetric]
    by (simp add: write_groups_Cons)
qed

section \<open>The document of a run\<close>

lemma collect_error: "collect vs hvs = Inl e \<Longrightarrow> e = ValueError"
  by (induction vs arbitrary: hvs) (auto split: sum.splits if_splits dest: host_vars_of_error)

lemma collect_fails_iff: "(\<exists>e. collect vs hvs = Inl e) \<longleftrightarrow> list_ex bad_address vs"
proof (induction vs arbitrary: hvs)
  case Nil
  then show ?case by simp
next
  case (Cons v vs)
  show ?case
  proof (cases "host_vars_of v")
    case (Inl e)
    then have "bad_address v" using host_vars_of_fails_iff by blast
    with Inl show ?thesis by simp
  next
    case (Inr hv)
    then have "\<not> bad_address v" using host_vars_of_fails_iff [of v] by simp
    with Inr Cons.IH show ?thesis by simp
  qed
qed

lemma hostvars_loop_collect:
  assumes "dict_get doc ''_meta'' = Some (JObj meta)"
    and "dict_get meta ''hostvars'' = Some (JObj hvs)"
  shows "hostvars_loop vs doc =
     (case collect vs hvs of
        Inl e \<Rightarrow> Inl e
      | Inr hvs' \<Rightarrow> Inr (dict_set doc ''_meta'' (JObj (dict_set meta ''hostvars'' (JObj hvs')))))"
  using assms
proof (induction vs arbitrary: doc meta hvs)
  case Nil
  then show ?case by (simp add: dict_set_same)
next
  case (Cons v vs)
  show ?case
  proof (cases "host_vars_of v")
    case (Inl e)
    then show ?thesis by simp
  next
    case (Inr hv)
    show ?thesis
    proof (cases "hv = []")
      case True
      with Inr Cons show ?thesis by simp
    next
      case False
      let ?meta' = "dict_set meta ''hostvars'' (JObj (dict_set hvs (name v) (JObj hv)))"
      let ?doc' = "dict_set doc ''_meta'' (JObj ?meta')"
      have st: "store_hostvars doc (name v) hv = Inr ?doc'"
        using Cons.prems by (simp add: store_hostvars_def)
      have a: "dict_get ?doc' ''_meta'' = Some (JObj ?meta')" by (simp add: dict_get_set)
      have b: "dict_get ?meta' ''hostvars'' = Some (JObj (dict_set hvs (name v) (JObj hv)))"
        by (simp add: dict_get_set)
      show ?thesis
        using Inr False st Cons.IH [OF a b] by (simp add: dict_set_twice split: sum.splits)
    qed
  qed
qed

lemma hostvars_loop_init:
  "hostvars_loop vs (inventory (init vs')) =
     (case collect vs [] of
        Inl e \<Rightarrow> Inl e
      | Inr hvs \<Rightarrow>
          Inr [(''all'', JObj [(''hosts'', JList (map JStr (map name vs'))), (''vars'', all_vars)]),
               (''_meta'', JObj [(''hostvars'', JObj hvs)])])"
proof -
  have a: "dict_get (inventory (init vs')) ''_meta'' = Some (JObj [(''hostvars'', JObj [])])"
    by (simp add: init_def dict_get_def)
  have b: "dict_get [(''hostvars'', JObj [])] ''hostvars'' = Some (JObj [])"
    by (simp add: dict_get_def)
  show ?thesis
    unfolding hostvars_loop_collect [OF a b]
    by (simp add: init_def all_vars_def split: sum.splits)
qed

lemma emit_groups_base:
  "emit_groups enum (build_groups (map name vs))
     [(''all'', JObj [(''hosts'', JList (map JStr (map name vs))), (''vars'', all_vars)]),
      (''_meta'', JObj [(''hostvars'', JObj hvs)])] = Inr (document enum vs hvs)"
  by (simp add: emit_groups_def document_def Let_def dict_get_def)

lemma vms_init [simp]: "vms (init vs) = vs"
  by (simp add: init_def)

lemma names_init [simp]: "names (init vs) = map name vs"
  by (simp add: init_def)

lemma main_document:
  "main enum vs =
     (case collect vs [] of Inl e \<Rightarrow> Inl e | Inr hvs \<Rightarrow> Inr (document enum vs hvs))"
proof (cases "collect vs []")
  case (Inl e)
  then have "hostvars (init vs) = Inl e"
    by (simp add: hostvars_def hostvars_loop_init)
  with Inl show ?thesis by (simp add: main_def)
next
  case (Inr hvs)
  let ?base = "[(''all'', JObj [(''hosts'', JList (map JStr (map name vs))), (''vars'', all_vars)]),
                (''_meta'', JObj [(''hostvars'', JObj hvs)])]"
  from Inr have "hostvars (init vs) = Inr ((init vs)\<lparr>inventory := ?base\<rparr>)"
    by (simp add: hostvars_def hostvars_loop_init)
  moreover have "groups enum ((init vs)\<lparr>inventory := ?base\<rparr>) =
      Inr ((init vs)\<lparr>inventory := document enum vs hvs\<rparr>)"
    using emit_groups_base [of enum vs hvs] by (simp add: groups_def)
  ultimately show ?thesis using Inr by (simp add: main_def)
qed

section \<open>Host variables are never empty\<close>

lemma dict_get_set_var:
  "dict_get (set_var v f var hv) k =
     (if k = var \<and> truthy (py_get (members v) f) then Some (py_get (members v) f)
      else dict_get hv k)"
  by (simp add: set_var_def Let_def dict_get_set)

lemma set_set_var:
  "(k, x) \<in> set (set_var v f var hv) \<Longrightarrow> (k, x) \<in> set hv \<or> truthy x"
  by (auto simp: set_var_def Let_def dest!: set_dict_set split: if_splits)

lemma digits_of_not_Nil: "digits_of b n \<noteq> []"
  by (subst digits_of.simps) simp

lemma join_two_not_Nil: "2 \<le> length ps \<Longrightarrow> sep \<noteq> [] \<Longrightarrow> join sep ps \<noteq> []"
proof -
  assume "2 \<le> length ps" and sep: "sep \<noteq> []"
  then obtain p q rs where "ps = p # q # rs"
    by (cases ps; cases "tl ps") auto
  with sep show ?thesis by simp
qed

lemma string_from_ip_int4_not_Nil: "string_from_ip_int4 ip \<noteq> []"
  by (simp add: string_from_ip_int4_def to_bytes4_def)

lemma run_ok_step: "run_ok st \<Longrightarrow> run_ok (compress_step ih st)"
  by (cases st; cases ih) (auto simp: run_ok_def compress_step_def Let_def)

lemma run_ok_fold: "run_ok st \<Longrightarrow> run_ok (fold compress_step ihs st)"
  by (induction ihs arbitrary: st) (auto simp: run_ok_step)

lemma length_compress_hextets: "2 \<le> length hs \<Longrightarrow> 2 \<le> length (compress_hextets hs)"
proof -
  assume len: "2 \<le> length hs"
  obtain bs bl s l where f: "fold compress_step (enumerate 0 hs) (-1, 0, -1, 0) = (bs, bl, s, l)"
    by (metis prod_cases4)
  have "run_ok (-1, 0, -1, 0)" by (simp add: run_ok_def)
  from run_ok_fold [OF this, of "enumerate 0 hs"] f have ok: "bl = 0 \<or> 0 \<le> bs"
    by (simp add: run_ok_def)
  show ?thesis
  proof (cases "1 < bl")
    case False
    with f len show ?thesis by (simp add: compress_hextets_def)
  next
    case True
    with ok have bs: "0 \<le> bs" by simp
    show ?thesis
    proof (cases "bs = 0")
      case True
      with f \<open>1 < bl\<close> show ?thesis by (simp add: compress_hextets_def Let_def)
    next
      case False
      with bs have "0 < nat bs" by simp
      with f \<open>1 < bl\<close> False len show ?thesis
        by (auto simp: compress_hextets_def Let_def min_def)
    qed
  qed
qed

lemma string_from_ip_int6_not_Nil: "string_from_ip_int6 ip \<noteq> []"
  unfolding string_from_ip_int6_def Let_def
  by (rule join_two_not_Nil) (simp_all add: length_compress_hextets)

lemma str_ip_not_Nil: "str_ip i \<noteq> []"
  by (cases i) (simp_all add: string_from_ip_int4_not_Nil string_from_ip_int6_not_Nil)

section \<open>Which host variables a record gets\<close>

lemma produced_vars_simps:
  "produced_vars ''ssh_host'' = [''ansible_host'']"
  "produced_vars ''ssh_port'' = [''ansible_port'']"
  "produced_vars ''ssh_user'' = [''ansible_user'']"
  "produced_vars ''ssh_key'' = [''ansible_ssh_private_key_file'']"
  "produced_vars ''ssh_options'' = [''ansible_ssh_common_args'']"
  "produced_vars ''network_address'' = [''network_cidr'', ''network_address'']"
  by (simp_all add: produced_vars_def)

lemma host_vars_of_passed_on:
  "host_vars_of v =
     (if truthy (py_get (members v) ''network_address'') then
        (case ip_interface (py_get (members v) ''network_address'') of
           None \<Rightarrow> Inl ValueError
         | Some i \<Rightarrow>
             Inr (dict_set (dict_set (passed_on v) ''network_cidr''
                    (py_get (members v) ''network_address''))
                    ''network_address'' (JStr (str_ip i))))
      else Inr (passed_on v))"
  unfolding host_vars_of_def passed_on_def Let_def by simp

lemma set_set_varE:
  "(k, x) \<in> set (set_var v f var hv) \<Longrightarrow> ((k, x) \<in> set hv \<Longrightarrow> truthy x) \<Longrightarrow> truthy x"
  using set_set_var by blast

lemma passed_on_values: "(k, x) \<in> set (passed_on v) \<Longrightarrow> truthy x"
  unfolding passed_on_def
  by (erule set_set_varE)+ simp

lemma passed_on_get:
  "dict_get (passed_on v) k =
     (if k = ''ansible_ssh_common_args'' \<and> truthy (py_get (members v) ''ssh_options'')
      then Some (py_get (members v) ''ssh_options'')
      else if k = ''ansible_ssh_private_key_file'' \<and> truthy (py_get (members v) ''ssh_key'')
      then Some (py_get (members v) ''ssh_key'')
      else if k = ''ansible_user'' \<and> truthy (py_get (members v) ''ssh_user'')
      then Some (py_get (members v) ''ssh_user'')
      else if k = ''ansible_port'' \<and> truthy (py_get (members v) ''ssh_port'')
      then Some (py_get (members v) ''ssh_port'')
      else if k = ''ansible_host'' \<and> truthy (py_get (members v) ''ssh_host'')
      then Some (py_get (members v) ''ssh_host'')
      else None)"
  unfolding passed_on_def dict_get_set_var by simp

lemma host_vars_of_values:
  assumes "host_vars_of v = Inr hv" and "(k, x) \<in> set hv"
  shows "truthy x"
proof (cases "truthy (py_get (members v) ''network_address'')")
  case False
  with assms(1) have "hv = passed_on v" by (simp add: host_vars_of_passed_on)
  with assms(2) show ?thesis by (simp add: passed_on_values)
next
  case True
  with assms(1) obtain i where
    hv: "hv = dict_set (dict_set (passed_on v) ''network_cidr''
                 (py_get (members v) ''network_address''))
                 ''network_address'' (JStr (str_ip i))"
    by (auto simp: host_vars_of_passed_on split: option.splits)
  from assms(2) [unfolded hv] have
    "(k, x) = (''network_address'', JStr (str_ip i)) \<or>
     (k, x) = (''network_cidr'', py_get (members v) ''network_address'') \<or>
     (k, x) \<in> set (passed_on v)"
    by (blast dest: set_dict_set)
  with True show ?thesis by (auto simp: str_ip_not_Nil passed_on_values)
qed



lemma host_vars_of_lookup:
  assumes "host_vars_of v = Inr hv"
  shows "dict_get hv k =
     (if truthy (py_get (members v) ''network_address'') \<and> k = ''network_address''
      then Some (JStr (str_ip (the (ip_interface (py_get (members v) ''network_address'')))))
      else if truthy (py_get (members v) ''network_address'') \<and> k = ''network_cidr''
      then Some (py_get (members v) ''network_address'')
      else dict_get (passed_on v) k)"
  using assms
  by (auto simp: host_vars_of_passed_on dict_get_set split: if_splits option.splits)

lemma host_vars_of_key:
  assumes "host_vars_of v = Inr hv"
    and "\<not> truthy (py_get (members v) f)"
    and "var \<in> set (produced_vars f)"
  shows "dict_get hv var = None"
proof -
  consider "f = ''ssh_host''" "var = ''ansible_host''"
    | "f = ''ssh_port''" "var = ''ansible_port''"
    | "f = ''ssh_user''" "var = ''ansible_user''"
    | "f = ''ssh_key''" "var = ''ansible_ssh_private_key_file''"
    | "f = ''ssh_options''" "var = ''ansible_ssh_common_args''"
    | "f = ''network_address''" "var = ''network_cidr'' \<or> var = ''network_address''"
    using assms(3) unfolding produced_vars_def by (auto split: if_splits)
  then show ?thesis
  proof cases
    case 1
    with assms(2) show ?thesis
      unfolding host_vars_of_lookup [OF assms(1)] passed_on_get by simp
  next
    case 2
    with assms(2) show ?thesis
      unfolding host_vars_of_lookup [OF assms(1)] passed_on_get by simp
  next
    case 3
    with assms(2) show ?thesis
      unfolding host_vars_of_lookup [OF assms(1)] passed_on_get by simp
  next
    case 4
    with assms(2) show ?thesis
      unfolding host_vars_of_lookup [OF assms(1)] passed_on_get by simp
  next
    case 5
    with assms(2) show ?thesis
      unfolding host_vars_of_lookup [OF assms(1)] passed_on_get by simp
  next
    case 6
    with assms(2) show ?thesis
      unfolding host_vars_of_lookup [OF assms(1)] passed_on_get by auto
  qed
qed


lemma py_get_drop:
  "py_get ((members v)(f := None)) g = (if g = f then JNull else py_get (members v) g)"
  by (simp add: py_get_def)

lemma set_var_drop:
  "\<not> truthy (py_get (members v) f) \<Longrightarrow>
   set_var (v\<lparr>members := (members v)(f := None)\<rparr>) g var hv = set_var v g var hv"
  by (simp add: set_var_def py_get_drop)

lemma passed_on_drop:
  "\<not> truthy (py_get (members v) f) \<Longrightarrow>
   passed_on (v\<lparr>members := (members v)(f := None)\<rparr>) = passed_on v"
  by (simp add: passed_on_def set_var_drop)

lemma host_vars_of_drop:
  assumes "\<not> truthy (py_get (members v) f)"
  shows "host_vars_of (v\<lparr>members := (members v)(f := None)\<rparr>) = host_vars_of v"
proof (cases "f = ''network_address''")
  case True
  with assms show ?thesis
    by (simp add: host_vars_of_passed_on passed_on_drop py_get_drop)
next
  case False
  with assms show ?thesis
    by (simp add: host_vars_of_passed_on passed_on_drop py_get_drop split: option.splits)
qed

lemma host_vars_of_none:
  assumes "\<And>f. f \<in> set optional_fields \<Longrightarrow> \<not> truthy (py_get (members v) f)"
  shows "host_vars_of v = Inr []"
proof -
  have "\<not> truthy (py_get (members v) ''ssh_host'')" "\<not> truthy (py_get (members v) ''ssh_port'')"
    "\<not> truthy (py_get (members v) ''ssh_user'')" "\<not> truthy (py_get (members v) ''ssh_key'')"
    "\<not> truthy (py_get (members v) ''ssh_options'')"
    "\<not> truthy (py_get (members v) ''network_address'')"
    using assms by (simp_all add: optional_fields_def)
  then show ?thesis
    by (simp add: host_vars_of_passed_on passed_on_def set_var_def)
qed

section \<open>Reading the document\<close>

lemma dom_collect:
  "collect vs hvs0 = Inr hvs \<Longrightarrow>
   fst ` set hvs = fst ` set hvs0 \<union> name ` {v \<in> set vs. host_vars_of v \<noteq> Inr []}"
proof (induction vs arbitrary: hvs0)
  case Nil
  then show ?case by simp
next
  case (Cons v vs)
  show ?case
  proof (cases "host_vars_of v")
    case (Inl e)
    with Cons.prems show ?thesis by simp
  next
    case (Inr hv)
    show ?thesis
    proof (cases "hv = []")
      case True
      with Inr Cons.prems have "collect vs hvs0 = Inr hvs" by simp
      from Cons.IH [OF this] Inr True show ?thesis by auto
    next
      case False
      with Inr Cons.prems have "collect vs (dict_set hvs0 (name v) (JObj hv)) = Inr hvs" by simp
      from Cons.IH [OF this] Inr False show ?thesis by (auto simp: dom_dict_set)
    qed
  qed
qed

lemma dict_get_document_meta:
  "dict_get (document enum vs hvs) ''_meta'' =
     (case dict_get (build_groups (map name vs)) ''_meta'' of
        Some hosts \<Rightarrow> Some (group_entry enum hosts)
      | None \<Rightarrow> Some (JObj [(''hostvars'', JObj hvs)]))"
proof -
  have d: "distinct (map fst (build_groups (map name vs)))"
    using wf_build_groups [of "map name vs"] by (simp add: wf_groups_def)
  show ?thesis
    by (simp add: document_def Let_def dict_get_write_groups [OF d] dict_get_Cons
          split: option.splits)
qed

lemma dict_get_document_all:
  "dict_get (document enum vs hvs) ''all'' =
     (case dict_get (build_groups (map name vs)) ''all'' of
        Some hosts \<Rightarrow> Some (group_entry enum hosts)
      | None \<Rightarrow>
          Some (JObj ([(''hosts'', JList (map JStr (map name vs))), (''vars'', all_vars)] @
                      (if build_groups (map name vs) = [] then []
                       else [(''children'', JList (map JStr (map fst (build_groups (map name vs)))))]))))"
proof -
  have d: "distinct (map fst (build_groups (map name vs)))"
    using wf_build_groups [of "map name vs"] by (simp add: wf_groups_def)
  show ?thesis
    by (simp add: document_def Let_def dict_get_write_groups [OF d] dict_get_Cons
          split: option.splits)
qed

lemma dict_get_document_group:
  "dict_get (build_groups (map name vs)) grp = Some hosts \<Longrightarrow>
   dict_get (document enum vs hvs) grp = Some (group_entry enum hosts)"
proof -
  assume a: "dict_get (build_groups (map name vs)) grp = Some hosts"
  have d: "distinct (map fst (build_groups (map name vs)))"
    using wf_build_groups [of "map name vs"] by (simp add: wf_groups_def)
  from a have "build_groups (map name vs) \<noteq> []" by auto
  with a show ?thesis
    by (simp add: document_def Let_def dict_get_write_groups [OF d])
qed

section \<open>Claims about the host variables\<close>

text \<open>
  C9. A field that is present with a value that is false for Python (the empty
  string, the number 0, null, false, an empty list or dictionary) is treated
  exactly as if the record had no such field: the host variables of the record
  are those of the record without the field, none of the variables that the
  field produces is set, and a false \<^verbatim>\<open>network_address\<close> is not parsed, so that the
  host variables are the fields passed on and no error is raised.
\<close>

theorem falsy_field_like_absent:
  assumes "members v f = Some x" and "\<not> truthy x"
  shows "host_vars_of v = host_vars_of (v\<lparr>members := (members v)(f := None)\<rparr>) \<and>
         (\<forall>hv var. host_vars_of v = Inr hv \<longrightarrow> var \<in> set (produced_vars f) \<longrightarrow>
            dict_get hv var = None) \<and>
         (f = ''network_address'' \<longrightarrow> host_vars_of v = Inr (passed_on v))"
proof -
  from assms have n: "\<not> truthy (py_get (members v) f)" by (simp add: py_get_def)
  from n have "host_vars_of v = host_vars_of (v\<lparr>members := (members v)(f := None)\<rparr>)"
    by (simp add: host_vars_of_drop)
  moreover from n have "\<forall>hv var. host_vars_of v = Inr hv \<longrightarrow> var \<in> set (produced_vars f) \<longrightarrow>
            dict_get hv var = None"
    using host_vars_of_key by blast
  moreover from n have "f = ''network_address'' \<longrightarrow> host_vars_of v = Inr (passed_on v)"
    by (auto simp: host_vars_of_passed_on)
  ultimately show ?thesis by blast
qed

theorem falsy_field_like_absent_witness:
  "members \<lparr>name = ''web1'', members = [''ssh_host'' \<mapsto> JStr ''h'', ''ssh_port'' \<mapsto> JInt 0]\<rparr>
     ''ssh_port'' = Some (JInt 0) \<and>
   \<not> truthy (JInt 0) \<and>
   host_vars_of \<lparr>name = ''web1'', members = [''ssh_host'' \<mapsto> JStr ''h'', ''ssh_port'' \<mapsto> JInt 0]\<rparr> =
     host_vars_of (\<lparr>name = ''web1'', members = [''ssh_host'' \<mapsto> JStr ''h'', ''ssh_port'' \<mapsto> JInt 0]\<rparr>
       \<lparr>members := [''ssh_host'' \<mapsto> JStr ''h'', ''ssh_port'' \<mapsto> JInt 0](''ssh_port'' := None)\<rparr>)"
  using falsy_field_like_absent
    [of "\<lparr>name = ''web1'', members = [''ssh_host'' \<mapsto> JStr ''h'', ''ssh_port'' \<mapsto> JInt 0]\<rparr>"
        "''ssh_port''" "JInt 0"]
  by simp

section \<open>Claims about the document\<close>

text \<open>
  C6. For the empty list of records the document is
  \<^verbatim>\<open>{"all": {"hosts": [], "vars": {...}}, "_meta": {"hostvars": {}}}\<close>, and no error
  is raised. Whenever the group map is empty, the document that a run prints
  has the two keys \<^verbatim>\<open>all\<close> and \<^verbatim>\<open>_meta\<close> only, and \<^verbatim>\<open>all\<close> has \<^verbatim>\<open>hosts\<close> and
  \<^verbatim>\<open>vars\<close> only: no \<^verbatim>\<open>children\<close> key, no group entry.
\<close>

theorem no_groups_no_children:
  "main enum [] =
     Inr [(''all'', JObj [(''hosts'', JList []),
                          (''vars'', JObj [(''ansible_python_interpreter'', JStr ''/usr/bin/python3'')])]),
          (''_meta'', JObj [(''hostvars'', JObj [])])] \<and>
   (build_groups (map name vs) = [] \<longrightarrow> main enum vs = Inr doc \<longrightarrow>
      (\<exists>hvs. doc =
         [(''all'', JObj [(''hosts'', JList (map JStr (map name vs))),
                          (''vars'', JObj [(''ansible_python_interpreter'', JStr ''/usr/bin/python3'')])]),
          (''_meta'', JObj [(''hostvars'', JObj hvs)])]))"
proof -
  have "build_groups [] = []" by (simp add: build_groups_def)
  then have "main enum [] =
     Inr [(''all'', JObj [(''hosts'', JList []),
                          (''vars'', JObj [(''ansible_python_interpreter'', JStr ''/usr/bin/python3'')])]),
          (''_meta'', JObj [(''hostvars'', JObj [])])]"
    by (simp add: main_document document_def all_vars_def)
  moreover have "build_groups (map name vs) = [] \<longrightarrow> main enum vs = Inr doc \<longrightarrow>
      (\<exists>hvs. doc =
         [(''all'', JObj [(''hosts'', JList (map JStr (map name vs))),
                          (''vars'', JObj [(''ansible_python_interpreter'', JStr ''/usr/bin/python3'')])]),
          (''_meta'', JObj [(''hostvars'', JObj hvs)])])"
    by (auto simp: main_document document_def all_vars_def split: sum.splits)
  ultimately show ?thesis by blast
qed

theorem no_groups_no_children_witness:
  "build_groups (map name [\<lparr>name = ''web1'', members = [''ssh_user'' \<mapsto> JStr ''root'']\<rparr>,
                           \<lparr>name = ''db1'', members = Map.empty\<rparr>]) = [] \<and>
   main (\<lambda>s. s) [\<lparr>name = ''web1'', members = [''ssh_user'' \<mapsto> JStr ''root'']\<rparr>,
                  \<lparr>name = ''db1'', members = Map.empty\<rparr>] =
     Inr [(''all'', JObj [(''hosts'', JList [JStr ''web1'', JStr ''db1'']),
                          (''vars'', JObj [(''ansible_python_interpreter'', JStr ''/usr/bin/python3'')])]),
          (''_meta'', JObj [(''hostvars'',
              JObj [(''web1'', JObj [(''ansible_user'', JStr ''root'')])])])]"
proof -
  have g: "build_groups (map name [\<lparr>name = ''web1'', members = [''ssh_user'' \<mapsto> JStr ''root'']\<rparr>,
                           \<lparr>name = ''db1'', members = Map.empty\<rparr>]) = []"
    by code_simp
  have m: "main (\<lambda>s. s) [\<lparr>name = ''web1'', members = [''ssh_user'' \<mapsto> JStr ''root'']\<rparr>,
                  \<lparr>name = ''db1'', members = Map.empty\<rparr>] =
     Inr [(''all'', JObj [(''hosts'', JList [JStr ''web1'', JStr ''db1'']),
                          (''vars'', JObj [(''ansible_python_interpreter'', JStr ''/usr/bin/python3'')])]),
          (''_meta'', JObj [(''hostvars'',
              JObj [(''web1'', JObj [(''ansible_user'', JStr ''root'')])])])]"
    by code_simp
  from g m no_groups_no_children
    [of "\<lambda>s. s" "[\<lparr>name = ''web1'', members = [''ssh_user'' \<mapsto> JStr ''root'']\<rparr>,
                  \<lparr>name = ''db1'', members = Map.empty\<rparr>]"]
  show ?thesis by blast
qed

section \<open>Records without optional fields\<close>

lemma get_path_hostvars:
  assumes "n \<notin> name ` {v \<in> set vs. host_vars_of v \<noteq> Inr []}"
    and "main enum vs = Inr d"
  shows "get_path (JObj d) [''_meta'', ''hostvars'', n] = None"
proof -
  from assms(2) obtain hvs where c: "collect vs [] = Inr hvs" and d: "d = document enum vs hvs"
    by (auto simp: main_document split: sum.splits)
  from dom_collect [OF c] assms(1) have "n \<notin> fst ` set hvs" by simp
  then have n: "dict_get hvs n = None" by (simp add: dict_get_None_iff)
  show ?thesis
  proof (cases "dict_get (build_groups (map name vs)) ''_meta''")
    case None
    with n show ?thesis
      by (simp add: d dict_get_document_meta dict_get_Cons)
  next
    case (Some hosts)
    then show ?thesis
      by (simp add: d dict_get_document_meta group_entry_def dict_get_Cons)
  qed
qed

text \<open>
  C7. A record with none of the six optional fields has no host variables, and
  its turn of the loop leaves the document as it is, so that no entry under
  \<^verbatim>\<open>_meta.hostvars\<close> carries its name unless another record with that name has
  fields. For every record, a field that is absent leaves the variables it
  would produce absent, and every variable that is set has a value that is true
  for Python: never \<^verbatim>\<open>null\<close>, never an empty string.
\<close>

theorem absent_fields_absent_keys:
  "((\<forall>f\<in>set optional_fields. members v f = None) \<longrightarrow>
      host_vars_of v = Inr [] \<and> hostvars_loop (v # vs) doc = hostvars_loop vs doc) \<and>
   (host_vars_of v = Inr hv \<longrightarrow> members v f = None \<longrightarrow> var \<in> set (produced_vars f) \<longrightarrow>
      dict_get hv var = None) \<and>
   (host_vars_of v = Inr hv \<longrightarrow> (k, x) \<in> set hv \<longrightarrow> truthy x) \<and>
   (main enum ws = Inr d \<longrightarrow>
      (\<forall>w\<in>set ws. name w = n \<longrightarrow> (\<forall>f\<in>set optional_fields. members w f = None)) \<longrightarrow>
      get_path (JObj d) [''_meta'', ''hostvars'', n] = None)"
proof -
  have none: "host_vars_of w = Inr []" if "\<forall>f\<in>set optional_fields. members w f = None" for w
    using that by (intro host_vars_of_none) (simp add: py_get_def)
  have a: "(\<forall>f\<in>set optional_fields. members v f = None) \<longrightarrow>
      host_vars_of v = Inr [] \<and> hostvars_loop (v # vs) doc = hostvars_loop vs doc"
    using none [of v] by simp
  have b: "host_vars_of v = Inr hv \<longrightarrow> members v f = None \<longrightarrow> var \<in> set (produced_vars f) \<longrightarrow>
      dict_get hv var = None"
    using host_vars_of_key [of v hv f var] by (simp add: py_get_def)
  have c: "host_vars_of v = Inr hv \<longrightarrow> (k, x) \<in> set hv \<longrightarrow> truthy x"
    using host_vars_of_values by blast
  have d: "main enum ws = Inr d \<longrightarrow>
      (\<forall>w\<in>set ws. name w = n \<longrightarrow> (\<forall>f\<in>set optional_fields. members w f = None)) \<longrightarrow>
      get_path (JObj d) [''_meta'', ''hostvars'', n] = None"
  proof (intro impI)
    assume m: "main enum ws = Inr d"
      and all: "\<forall>w\<in>set ws. name w = n \<longrightarrow> (\<forall>f\<in>set optional_fields. members w f = None)"
    from all none have "n \<notin> name ` {v \<in> set ws. host_vars_of v \<noteq> Inr []}" by blast
    then show "get_path (JObj d) [''_meta'', ''hostvars'', n] = None"
      using m by (rule get_path_hostvars)
  qed
  from a b c d show ?thesis by blast
qed

theorem absent_fields_absent_keys_witness:
  "list_all (\<lambda>f. members \<lparr>name = ''team/db1'', members = Map.empty\<rparr> f = None) optional_fields \<and>
   host_vars_of \<lparr>name = ''team/db1'', members = Map.empty\<rparr> = Inr [] \<and>
   main (\<lambda>s. s) [\<lparr>name = ''web1'', members = [''ssh_user'' \<mapsto> JStr ''root'']\<rparr>,
                  \<lparr>name = ''team/db1'', members = Map.empty\<rparr>] =
     Inr [(''all'', JObj [(''hosts'', JList [JStr ''web1'', JStr ''team/db1'']),
                          (''vars'', JObj [(''ansible_python_interpreter'', JStr ''/usr/bin/python3'')]),
                          (''children'', JList [JStr ''team''])]),
          (''_meta'', JObj [(''hostvars'',
              JObj [(''web1'', JObj [(''ansible_user'', JStr ''root'')])])]),
          (''team'', JObj [(''hosts'', JList [JStr ''team/db1''])])] \<and>
   get_path (JObj
        [(''all'', JObj [(''hosts'', JList [JStr ''web1'', JStr ''team/db1'']),
                          (''vars'', JObj [(''ansible_python_interpreter'', JStr ''/usr/bin/python3'')]),
                          (''children'', JList [JStr ''team''])]),
          (''_meta'', JObj [(''hostvars'',
              JObj [(''web1'', JObj [(''ansible_user'', JStr ''root'')])])]),
          (''team'', JObj [(''hosts'', JList [JStr ''team/db1''])])])
      [''_meta'', ''hostvars'', ''team/db1''] = None"
proof -
  let ?w0 = "\<lparr>name = ''team/db1'', members = Map.empty\<rparr>"
  let ?w1 = "\<lparr>name = ''web1'', members = [''ssh_user'' \<mapsto> JStr ''root'']\<rparr>"
  let ?d = "[(''all'', JObj [(''hosts'', JList [JStr ''web1'', JStr ''team/db1'']),
                          (''vars'', JObj [(''ansible_python_interpreter'', JStr ''/usr/bin/python3'')]),
                          (''children'', JList [JStr ''team''])]),
          (''_meta'', JObj [(''hostvars'',
              JObj [(''web1'', JObj [(''ansible_user'', JStr ''root'')])])]),
          (''team'', JObj [(''hosts'', JList [JStr ''team/db1''])])]"
  have h0: "\<forall>f\<in>set optional_fields. members ?w0 f = None" by simp
  have m: "main (\<lambda>s. s) [?w1, ?w0] = Inr ?d" by code_simp
  have only: "\<forall>w\<in>set [?w1, ?w0]. name w = ''team/db1'' \<longrightarrow>
                (\<forall>f\<in>set optional_fields. members w f = None)"
    by simp
  from absent_fields_absent_keys
         [where v = ?w0 and enum = "\<lambda>s. s" and ws = "[?w1, ?w0]" and d = ?d and n = "''team/db1''"]
       h0 m only
  have "host_vars_of ?w0 = Inr [] \<and> get_path (JObj ?d) [''_meta'', ''hostvars'', ''team/db1''] = None"
    by blast
  with h0 m show ?thesis by (simp add: list_all_iff)
qed

section \<open>The groups of a name\<close>

lemma split_on_not_Nil [simp]: "split_on c s \<noteq> []"
  by (induction s) (auto split: list.splits)

lemma split_on_no_sep: "c \<notin> set s \<Longrightarrow> split_on c s = [s]"
  by (induction s) auto

lemma hd_split_on_sep: "split_on c (c # s) = [] # split_on c s"
  by simp

lemma length_split_on: "length (split_on c s) = Suc (length (filter (\<lambda>x. x = c) s))"
  by (induction s) (auto split: list.splits)

lemma name_groups_no_sep:
  assumes "CHR ''/'' \<notin> set nm"
  shows "name_groups nm = []"
proof (cases "nm = []")
  case True
  then show ?thesis
    by (simp add: name_groups_def parents_posix_def parse_parts_def parents_len_def)
next
  case False
  with assms have "hd nm \<noteq> CHR ''/''" by (cases nm) auto
  with False have sr: "splitroot nm = ([], nm)" by (simp add: splitroot_def)
  have "parse_parts nm = ([], if nm \<noteq> ''.'' then [nm] else [])"
    using False assms sr by (simp add: parse_parts_def)
  then show ?thesis
    by (simp add: name_groups_def parents_posix_def parents_len_def)
qed

lemma clean_name_parse:
  assumes "clean_name nm"
  shows "parse_parts nm = ([], split_on CHR ''/'' nm)"
proof -
  from assms have ne: "nm \<noteq> []" by (auto simp: clean_name_def)
  from assms have h: "hd nm \<noteq> CHR ''/''"
    by (cases nm) (auto simp: clean_name_def)
  from ne h have sr: "splitroot nm = ([], nm)" by (simp add: splitroot_def)
  show ?thesis
  proof (cases "CHR ''/'' \<in> set nm")
    case True
    have "filter (\<lambda>x. x \<noteq> [] \<and> x \<noteq> ''.'') (split_on CHR ''/'' nm) = split_on CHR ''/'' nm"
      using assms by (simp add: clean_name_def list_all_iff)
    with True ne sr show ?thesis by (simp add: parse_parts_def)
  next
    case False
    then have s: "split_on CHR ''/'' nm = [nm]" by (rule split_on_no_sep)
    with assms have "nm \<noteq> ''.''" by (simp add: clean_name_def)
    with False ne sr s show ?thesis by (simp add: parse_parts_def)
  qed
qed

lemma join_not_Nil: "ps \<noteq> [] \<Longrightarrow> hd ps \<noteq> [] \<Longrightarrow> join sep ps \<noteq> []"
  by (cases ps; cases "tl ps") auto

lemma rev_map_upt: "rev (map f [Suc 0..<n]) = map (\<lambda>idx. f (n - Suc idx)) [0..<n - 1]"
  by (rule nth_equalityI) (auto simp: rev_nth intro!: arg_cong [where f = f])

lemma butlast_map_upt: "butlast (map f [0..<n]) = map f [0..<n - 1]"
  by (cases n) simp_all

lemma clean_name_groups:
  assumes "clean_name nm"
  shows "name_groups nm = rev (spec_groups nm)"
proof -
  let ?segs = "split_on CHR ''/'' nm"
  let ?n = "length ?segs"
  have hd: "hd ?segs \<noteq> []"
    using assms by (cases ?segs) (auto simp: clean_name_def)
  have item: "parents_item [] ?segs idx = join ''/'' (take (?n - Suc idx) ?segs)"
    if "idx < ?n - 1" for idx
  proof -
    from that have "take (?n - Suc idx) ?segs \<noteq> []" by auto
    moreover from that have "hd (take (?n - Suc idx) ?segs) = hd ?segs"
      by (cases ?segs) (auto simp: take_Cons')
    ultimately have "join ''/'' (take (?n - Suc idx) ?segs) \<noteq> []"
      using hd by (simp add: join_not_Nil)
    then show ?thesis
      by (simp add: parents_item_def as_posix_def format_parsed_parts_def)
  qed
  have "name_groups nm = map (parents_item [] ?segs) [0..<?n - 1]"
    by (simp add: name_groups_def parents_posix_def clean_name_parse [OF assms]
          parents_len_def butlast_map_upt)
  also have "\<dots> = map (\<lambda>idx. join ''/'' (take (?n - Suc idx) ?segs)) [0..<?n - 1]"
    using item by simp
  also have "\<dots> = rev (spec_groups nm)"
    by (simp add: spec_groups_def Let_def rev_map_upt)
  finally show ?thesis .
qed

lemma name_groups_example: "name_groups ''a/b/c'' = [''a/b'', ''a'']"
  by code_simp


text \<open>
  C1, as the specification states it, fails for a name that \<^verbatim>\<open>pathlib\<close>
  normalises: \<^verbatim>\<open>a//b\<close> has three segments between slashes and the two
  prefixes \<^verbatim>\<open>a\<close> and \<^verbatim>\<open>a/\<close>, but one group, \<^verbatim>\<open>a\<close>; the absolute name
  \<^verbatim>\<open>/a/b\<close> has the one group \<^verbatim>\<open>/a\<close>.
\<close>

theorem unnormalised_name_counterexample:
  "split_on CHR ''/'' ''a//b'' = [''a'', [], ''b''] \<and>
   spec_groups ''a//b'' = [''a'', ''a/''] \<and>
   name_groups ''a//b'' = [''a''] \<and>
   split_on CHR ''/'' ''/a/b'' = [[], ''a'', ''b''] \<and>
   spec_groups ''/a/b'' = [[], ''/a''] \<and>
   name_groups ''/a/b'' = [''/a'']"
  by code_simp

text \<open>
  C1, amended. For a name without an empty segment and without a segment
  \<^verbatim>\<open>.\<close> (so neither absolute nor ending in a slash), the groups are exactly
  the proper prefixes of the specification, the longest first in the order of
  the loop, \<open>k - 1\<close> of them for \<open>k\<close> segments; and whatever the other names
  of the list are, each of these prefixes is a group of the map, and the name
  is a member of a group exactly when the group is one of its prefixes. A name
  without a slash has no group and is a member of none, whatever the name. For
  every list, the groups of the map are the groups of its names, and the
  members of a group are the names that have it among their groups.
  \<^verbatim>\<open>a/b/c\<close> gives the groups \<^verbatim>\<open>a/b\<close> and \<^verbatim>\<open>a\<close>, with \<^verbatim>\<open>a/b/c\<close> a member of both.
\<close>

theorem groups_are_prefixes:
  "(clean_name nm \<longrightarrow>
      name_groups nm = rev (spec_groups nm) \<and>
      length (name_groups nm) = length (split_on CHR ''/'' nm) - 1 \<and>
      (nm \<in> set nms \<longrightarrow>
         set (spec_groups nm) \<subseteq> fst ` set (build_groups nms) \<and>
         (\<forall>grp. nm \<in> members_of (build_groups nms) grp \<longleftrightarrow> grp \<in> set (spec_groups nm)))) \<and>
   (CHR ''/'' \<notin> set nm \<longrightarrow>
      name_groups nm = [] \<and> (\<forall>grp. nm \<notin> members_of (build_groups nms) grp)) \<and>
   fst ` set (build_groups nms) = (\<Union>n\<in>set nms. set (name_groups n)) \<and>
   (\<forall>grp. members_of (build_groups nms) grp = {n \<in> set nms. grp \<in> set (name_groups n)}) \<and>
   (list_all clean_name nms \<longrightarrow>
      fst ` set (build_groups nms) = (\<Union>n\<in>set nms. set (spec_groups n)) \<and>
      (\<forall>grp. members_of (build_groups nms) grp = {n \<in> set nms. grp \<in> set (spec_groups n)})) \<and>
   build_groups [''a/b/c''] = [(''a/b'', [''a/b/c'']), (''a'', [''a/b/c''])]"
proof -
  have a: "clean_name nm \<longrightarrow>
      name_groups nm = rev (spec_groups nm) \<and>
      length (name_groups nm) = length (split_on CHR ''/'' nm) - 1 \<and>
      (nm \<in> set nms \<longrightarrow>
         set (spec_groups nm) \<subseteq> fst ` set (build_groups nms) \<and>
         (\<forall>grp. nm \<in> members_of (build_groups nms) grp \<longleftrightarrow> grp \<in> set (spec_groups nm)))"
  proof
    assume c: "clean_name nm"
    then have g: "name_groups nm = rev (spec_groups nm)" by (rule clean_name_groups)
    have l: "length (name_groups nm) = length (split_on CHR ''/'' nm) - 1"
      by (simp add: g) (simp add: spec_groups_def Let_def)
    have m: "set (spec_groups nm) \<subseteq> fst ` set (build_groups nms) \<and>
         (\<forall>grp. nm \<in> members_of (build_groups nms) grp \<longleftrightarrow> grp \<in> set (spec_groups nm))"
      if "nm \<in> set nms"
      using that g by (auto simp: dom_build_groups members_of_build_groups)
    from g l m show "name_groups nm = rev (spec_groups nm) \<and>
      length (name_groups nm) = length (split_on CHR ''/'' nm) - 1 \<and>
      (nm \<in> set nms \<longrightarrow>
         set (spec_groups nm) \<subseteq> fst ` set (build_groups nms) \<and>
         (\<forall>grp. nm \<in> members_of (build_groups nms) grp \<longleftrightarrow> grp \<in> set (spec_groups nm)))"
      by blast
  qed
  have b: "CHR ''/'' \<notin> set nm \<longrightarrow>
      name_groups nm = [] \<and> (\<forall>grp. nm \<notin> members_of (build_groups nms) grp)"
    by (simp add: name_groups_no_sep members_of_build_groups)
  have c: "fst ` set (build_groups nms) = (\<Union>n\<in>set nms. set (name_groups n))"
    by (rule dom_build_groups)
  have d: "\<forall>grp. members_of (build_groups nms) grp = {n \<in> set nms. grp \<in> set (name_groups n)}"
    by (simp add: members_of_build_groups)
  have e: "list_all clean_name nms \<longrightarrow>
      fst ` set (build_groups nms) = (\<Union>n\<in>set nms. set (spec_groups n)) \<and>
      (\<forall>grp. members_of (build_groups nms) grp = {n \<in> set nms. grp \<in> set (spec_groups n)})"
    by (auto simp: dom_build_groups members_of_build_groups list_all_iff clean_name_groups)
  have f: "build_groups [''a/b/c''] = [(''a/b'', [''a/b/c'']), (''a'', [''a/b/c''])]"
    by code_simp
  from a b c d e f show ?thesis by (intro conjI)
qed

theorem groups_are_prefixes_witness:
  "clean_name ''team/project/web1'' \<and>
   \<not> clean_name ''x//y'' \<and>
   ''team/project/web1'' \<in> set [''team/project/web1'', ''x//y'', ''solo''] \<and>
   CHR ''/'' \<notin> set ''solo'' \<and>
   name_groups ''solo'' = [] \<and>
   spec_groups ''team/project/web1'' = [''team'', ''team/project''] \<and>
   name_groups ''team/project/web1'' = rev (spec_groups ''team/project/web1'') \<and>
   set (spec_groups ''team/project/web1'') \<subseteq>
     fst ` set (build_groups [''team/project/web1'', ''x//y'', ''solo'']) \<and>
   (''team/project/web1'' \<in> members_of (build_groups [''team/project/web1'', ''x//y'', ''solo'']) ''team'')
     = (''team'' \<in> set (spec_groups ''team/project/web1'')) \<and>
   build_groups [''team/project/web1'', ''x//y'', ''solo''] =
     [(''team/project'', [''team/project/web1'']), (''team'', [''team/project/web1'']),
      (''x'', [''x//y''])]"
proof -
  let ?nms = "[''team/project/web1'', ''x//y'', ''solo'']"
  have cl: "clean_name ''team/project/web1''" by code_simp
  have ncl: "\<not> clean_name ''x//y''" by code_simp
  have m: "''team/project/web1'' \<in> set ?nms" by simp
  have s: "CHR ''/'' \<notin> set ''solo''" by simp
  have sp: "spec_groups ''team/project/web1'' = [''team'', ''team/project'']" by code_simp
  have bg: "build_groups ?nms =
     [(''team/project'', [''team/project/web1'']), (''team'', [''team/project/web1'']),
      (''x'', [''x//y''])]"
    by code_simp
  note t = groups_are_prefixes [of "''team/project/web1''" ?nms]
  note c1 = t [THEN conjunct1, rule_format, OF cl]
  note c2 = c1 [THEN conjunct2, THEN conjunct2, rule_format, OF m]
  have 1: "name_groups ''team/project/web1'' = rev (spec_groups ''team/project/web1'')"
    by (rule c1 [THEN conjunct1])
  have 2: "set (spec_groups ''team/project/web1'') \<subseteq> fst ` set (build_groups ?nms)"
    by (rule c2 [THEN conjunct1])
  have 3: "(''team/project/web1'' \<in> members_of (build_groups ?nms) ''team'')
     = (''team'' \<in> set (spec_groups ''team/project/web1''))"
    by (rule c2 [THEN conjunct2, rule_format])
  have 4: "name_groups ''solo'' = []"
    by (rule groups_are_prefixes [of "''solo''" "[]", THEN conjunct2, THEN conjunct1,
          rule_format, OF s, THEN conjunct1])
  from cl ncl m s 4 sp 1 2 3 bg show ?thesis by (intro conjI)
qed

section \<open>Hosts, children and members in the document\<close>

lemma count_list_distinct: "distinct xs \<Longrightarrow> x \<in> set xs \<Longrightarrow> count_list xs x = 1"
  by (induction xs) auto

lemma distinct_map_JStr: "distinct (map JStr xs) = distinct xs"
  by (simp add: distinct_map inj_on_def)

lemma group_hosts:
  assumes "dict_get (build_groups nms) grp = Some hosts"
  shows "hosts \<noteq> []" and "distinct hosts"
    and "set hosts = {nm \<in> set nms. grp \<in> set (name_groups nm)}"
proof -
  from assms have "(grp, hosts) \<in> set (build_groups nms)" by (rule dict_get_SomeD)
  with wf_build_groups [of nms] show "hosts \<noteq> []" and "distinct hosts"
    by (auto simp: wf_groups_def list_all_iff)
  from members_of_build_groups [of nms grp] assms
  show "set hosts = {nm \<in> set nms. grp \<in> set (name_groups nm)}"
    by (simp add: members_of_def)
qed

lemma group_member_has_sep:
  assumes "dict_get (build_groups nms) grp = Some hosts" and "h \<in> set hosts"
  shows "CHR ''/'' \<in> set h"
proof (rule ccontr)
  assume "CHR ''/'' \<notin> set h"
  then have "name_groups h = []" by (rule name_groups_no_sep)
  moreover from group_hosts(3) [OF assms(1)] assms(2) have "grp \<in> set (name_groups h)" by simp
  ultimately show False by simp
qed

lemma set_iteration_set: "set_iteration enum \<Longrightarrow> set (enum s) = set s"
  by (metis set_iteration_def mset_eq_setD)

lemma set_iteration_distinct: "set_iteration enum \<Longrightarrow> distinct (enum s) = distinct s"
  by (metis set_iteration_def mset_eq_imp_distinct_iff)

lemma dom_document:
  "fst ` set (document enum vs hvs) = {''all'', ''_meta''} \<union> fst ` set (build_groups (map name vs))"
  by (auto simp: document_def Let_def dom_write_groups)

lemma get_path_all_hosts:
  assumes "''all'' \<notin> fst ` set (build_groups (map name vs))"
  shows "get_path (JObj (document enum vs hvs)) [''all'', ''hosts''] =
           Some (JList (map JStr (map name vs)))"
proof -
  from assms have "dict_get (build_groups (map name vs)) ''all'' = None"
    by (simp add: dict_get_None_iff)
  then show ?thesis
    by (simp add: dict_get_document_all dict_get_Cons)
qed

lemma get_path_all_children:
  assumes "''all'' \<notin> fst ` set (build_groups (map name vs))"
    and "build_groups (map name vs) \<noteq> []"
  shows "get_path (JObj (document enum vs hvs)) [''all'', ''children''] =
           Some (JList (map JStr (map fst (build_groups (map name vs)))))"
proof -
  from assms(1) have "dict_get (build_groups (map name vs)) ''all'' = None"
    by (simp add: dict_get_None_iff)
  with assms(2) show ?thesis
    by (simp add: dict_get_document_all dict_get_Cons)
qed

section \<open>Every name once\<close>

text \<open>
  C4, as the specification states it, fails in two ways. Two records with the
  name \<^verbatim>\<open>a\<close> put \<^verbatim>\<open>a\<close> into \<^verbatim>\<open>all.hosts\<close> twice: nothing removes repeated
  names. And a group named \<^verbatim>\<open>all\<close> (from the name \<^verbatim>\<open>all/x\<close>) replaces the entry
  \<^verbatim>\<open>all\<close>, so that the name \<^verbatim>\<open>y\<close> is not in \<^verbatim>\<open>all.hosts\<close> at all and there is
  no \<^verbatim>\<open>all.children\<close>.
\<close>

theorem repeated_name_counterexample:
  "main (\<lambda>s. s) [\<lparr>name = ''a'', members = Map.empty\<rparr>, \<lparr>name = ''a'', members = Map.empty\<rparr>] =
     Inr [(''all'', JObj [(''hosts'', JList [JStr ''a'', JStr ''a'']),
                          (''vars'', JObj [(''ansible_python_interpreter'', JStr ''/usr/bin/python3'')])]),
          (''_meta'', JObj [(''hostvars'', JObj [])])] \<and>
   count_list [JStr ''a'', JStr ''a''] (JStr ''a'') = 2 \<and>
   main (\<lambda>s. s) [\<lparr>name = ''all/x'', members = Map.empty\<rparr>, \<lparr>name = ''y'', members = Map.empty\<rparr>] =
     Inr [(''all'', JObj [(''hosts'', JList [JStr ''all/x''])]),
          (''_meta'', JObj [(''hostvars'', JObj [])])] \<and>
   count_list [JStr ''all/x''] (JStr ''y'') = 0"
  by code_simp

text \<open>
  C4, amended. For every document that a run prints: if no group is named
  \<^verbatim>\<open>all\<close>, then \<^verbatim>\<open>all.hosts\<close> is the list of the names of the records, in which
  every name stands exactly once when the names are pairwise distinct, and, if
  there is a group at all, \<^verbatim>\<open>all.children\<close> is the list of the group names, in
  which every group name stands exactly once; and, in any case, the entry of
  every group is its list of member hosts, in which no name is repeated.
\<close>

theorem names_once:
  assumes "set_iteration enum" and "main enum vs = Inr doc"
  shows
    "(''all'' \<notin> fst ` set (build_groups (map name vs)) \<longrightarrow>
        get_path (JObj doc) [''all'', ''hosts''] = Some (JList (map JStr (map name vs))) \<and>
        (distinct (map name vs) \<longrightarrow>
           (\<forall>v\<in>set vs. count_list (map JStr (map name vs)) (JStr (name v)) = 1)) \<and>
        (build_groups (map name vs) \<noteq> [] \<longrightarrow>
           get_path (JObj doc) [''all'', ''children''] =
             Some (JList (map JStr (map fst (build_groups (map name vs))))) \<and>
           (\<forall>grp\<in>fst ` set (build_groups (map name vs)).
              count_list (map JStr (map fst (build_groups (map name vs)))) (JStr grp) = 1))) \<and>
     (\<forall>grp hosts. dict_get (build_groups (map name vs)) grp = Some hosts \<longrightarrow>
        dict_get doc grp = Some (JObj [(''hosts'', JList (map JStr (enum hosts)))]) \<and>
        distinct (map JStr (enum hosts)))"
proof -
  let ?g = "build_groups (map name vs)"
  from assms(2) obtain hvs where doc: "doc = document enum vs hvs"
    by (auto simp: main_document split: sum.splits)
  have dk: "distinct (map fst ?g)"
    using wf_build_groups [of "map name vs"] by (simp add: wf_groups_def)
  have hosts: "''all'' \<notin> fst ` set ?g \<longrightarrow>
      get_path (JObj doc) [''all'', ''hosts''] = Some (JList (map JStr (map name vs)))"
    unfolding doc using get_path_all_hosts by blast
  have once: "distinct (map name vs) \<longrightarrow>
      (\<forall>v\<in>set vs. count_list (map JStr (map name vs)) (JStr (name v)) = 1)"
  proof (intro impI ballI)
    fix v assume d: "distinct (map name vs)" and v: "v \<in> set vs"
    from d have "distinct (map JStr (map name vs))" by (simp only: distinct_map_JStr)
    moreover from v have "JStr (name v) \<in> set (map JStr (map name vs))" by simp
    ultimately show "count_list (map JStr (map name vs)) (JStr (name v)) = 1"
      by (rule count_list_distinct)
  qed
  have children: "''all'' \<notin> fst ` set ?g \<longrightarrow> ?g \<noteq> [] \<longrightarrow>
      get_path (JObj doc) [''all'', ''children''] = Some (JList (map JStr (map fst ?g)))"
    unfolding doc using get_path_all_children by blast
  have conce: "\<forall>grp\<in>fst ` set ?g. count_list (map JStr (map fst ?g)) (JStr grp) = 1"
  proof
    fix grp assume grp: "grp \<in> fst ` set ?g"
    from dk have "distinct (map JStr (map fst ?g))" by (simp only: distinct_map_JStr)
    moreover from grp have "JStr grp \<in> set (map JStr (map fst ?g))" by auto
    ultimately show "count_list (map JStr (map fst ?g)) (JStr grp) = 1"
      by (rule count_list_distinct)
  qed
  have members: "\<forall>grp hosts. dict_get ?g grp = Some hosts \<longrightarrow>
        dict_get doc grp = Some (JObj [(''hosts'', JList (map JStr (enum hosts)))]) \<and>
        distinct (map JStr (enum hosts))"
  proof (intro allI impI)
    fix grp hosts assume g: "dict_get ?g grp = Some hosts"
    from group_hosts(2) [OF g] assms(1) have "distinct (enum hosts)"
      by (simp add: set_iteration_distinct)
    then have "distinct (map JStr (enum hosts))" by (simp only: distinct_map_JStr)
    with dict_get_document_group [OF g, of enum hvs]
    show "dict_get doc grp = Some (JObj [(''hosts'', JList (map JStr (enum hosts)))]) \<and>
        distinct (map JStr (enum hosts))"
      by (simp only: doc group_entry_def simp_thms)
  qed
  from hosts once children conce members show ?thesis by blast
qed


theorem names_once_witness:
  "set_iteration rev \<and>
   main rev [\<lparr>name = ''a/b'', members = [''ssh_host'' \<mapsto> JStr ''h'']\<rparr>,
             \<lparr>name = ''a/c'', members = Map.empty\<rparr>,
             \<lparr>name = ''d'', members = Map.empty\<rparr>] =
     Inr [(''all'', JObj [(''hosts'', JList [JStr ''a/b'', JStr ''a/c'', JStr ''d'']),
                          (''vars'', JObj [(''ansible_python_interpreter'', JStr ''/usr/bin/python3'')]),
                          (''children'', JList [JStr ''a''])]),
          (''_meta'', JObj [(''hostvars'', JObj [(''a/b'', JObj [(''ansible_host'', JStr ''h'')])])]),
          (''a'', JObj [(''hosts'', JList [JStr ''a/c'', JStr ''a/b''])])] \<and>
   build_groups [''a/b'', ''a/c'', ''d''] = [(''a'', [''a/b'', ''a/c''])] \<and>
   count_list [JStr ''a/b'', JStr ''a/c'', JStr ''d''] (JStr ''a/c'') = 1 \<and>
   count_list [JStr ''a''] (JStr ''a'') = 1 \<and>
   distinct [JStr ''a/c'', JStr ''a/b'']"
proof -
  let ?vs = "[\<lparr>name = ''a/b'', members = [''ssh_host'' \<mapsto> JStr ''h'']\<rparr>,
             \<lparr>name = ''a/c'', members = Map.empty\<rparr>,
             \<lparr>name = ''d'', members = Map.empty\<rparr>]"
  let ?doc = "[(''all'', JObj [(''hosts'', JList [JStr ''a/b'', JStr ''a/c'', JStr ''d'']),
                          (''vars'', JObj [(''ansible_python_interpreter'', JStr ''/usr/bin/python3'')]),
                          (''children'', JList [JStr ''a''])]),
          (''_meta'', JObj [(''hostvars'', JObj [(''a/b'', JObj [(''ansible_host'', JStr ''h'')])])]),
          (''a'', JObj [(''hosts'', JList [JStr ''a/c'', JStr ''a/b''])])]"
  have si: "set_iteration rev" by (simp add: set_iteration_def)
  have m: "main rev ?vs = Inr ?doc" by code_simp
  have g: "build_groups [''a/b'', ''a/c'', ''d''] = [(''a'', [''a/b'', ''a/c''])]" by code_simp
  have gm: "build_groups (map name ?vs) = [(''a'', [''a/b'', ''a/c''])]" using g by simp
  have na: "''all'' \<notin> fst ` set (build_groups (map name ?vs))" unfolding gm by simp
  have d: "distinct (map name ?vs)" by simp
  have v: "\<lparr>name = ''a/c'', members = Map.empty\<rparr> \<in> set ?vs" by simp
  have ne: "build_groups (map name ?vs) \<noteq> []" unfolding gm by simp
  have a: "''a'' \<in> fst ` set (build_groups (map name ?vs))" unfolding gm by simp
  have l: "dict_get (build_groups (map name ?vs)) ''a'' = Some [''a/b'', ''a/c'']"
    unfolding gm by (simp add: dict_get_def)
  from names_once [OF si m] na d v
  have 1: "count_list (map JStr (map name ?vs)) (JStr (name \<lparr>name = ''a/c'', members = Map.empty\<rparr>)) = 1"
    by blast
  from names_once [OF si m] na ne a
  have 2: "count_list (map JStr (map fst (build_groups (map name ?vs)))) (JStr ''a'') = 1"
    by blast
  from names_once [OF si m] l
  have 3: "distinct (map JStr (rev [''a/b'', ''a/c'']))"
    by blast
  from 1 have c1: "count_list [JStr ''a/b'', JStr ''a/c'', JStr ''d''] (JStr ''a/c'') = 1" by simp
  from 2 have c2: "count_list [JStr ''a''] (JStr ''a'') = 1" unfolding gm by simp
  from 3 have c3: "distinct [JStr ''a/c'', JStr ''a/b'']" by simp
  from si m g c1 c2 c3 show ?thesis by blast
qed

section \<open>Children and group entries\<close>

text \<open>
  C10, as stated, fails when a group is named \<^verbatim>\<open>all\<close>: the group stage writes
  \<^verbatim>\<open>all.children\<close> first and then replaces the whole entry \<^verbatim>\<open>all\<close> by the
  entry of the group, so that the document has a group key but no list of
  children.
\<close>

theorem group_named_all_counterexample:
  "build_groups (map name [\<lparr>name = ''all/x'', members = Map.empty\<rparr>]) = [(''all'', [''all/x''])] \<and>
   main (\<lambda>s. s) [\<lparr>name = ''all/x'', members = Map.empty\<rparr>] =
     Inr [(''all'', JObj [(''hosts'', JList [JStr ''all/x''])]),
          (''_meta'', JObj [(''hostvars'', JObj [])])] \<and>
   get_path (JObj [(''all'', JObj [(''hosts'', JList [JStr ''all/x''])]),
                   (''_meta'', JObj [(''hostvars'', JObj [])])]) [''all'', ''children''] = None"
  by code_simp

text \<open>
  C10, amended. Whenever at least one group is derived and a document is
  printed: unless a group is named \<^verbatim>\<open>all\<close>, \<^verbatim>\<open>all.children\<close> lists exactly the
  group names; the keys of the document are \<^verbatim>\<open>all\<close>, \<^verbatim>\<open>_meta\<close> and the group
  names; the entry of every group is its member list, which is not empty; and
  every member has a slash in its name.
\<close>

theorem children_are_groups:
  assumes "set_iteration enum" and "main enum vs = Inr doc"
    and "build_groups (map name vs) \<noteq> []"
  shows
    "(''all'' \<notin> fst ` set (build_groups (map name vs)) \<longrightarrow>
        get_path (JObj doc) [''all'', ''children''] =
          Some (JList (map JStr (map fst (build_groups (map name vs)))))) \<and>
     fst ` set doc = {''all'', ''_meta''} \<union> fst ` set (build_groups (map name vs)) \<and>
     (\<forall>grp hosts. dict_get (build_groups (map name vs)) grp = Some hosts \<longrightarrow>
        dict_get doc grp = Some (JObj [(''hosts'', JList (map JStr (enum hosts)))]) \<and>
        enum hosts \<noteq> [] \<and>
        (\<forall>h\<in>set (enum hosts). CHR ''/'' \<in> set h))"
proof -
  let ?g = "build_groups (map name vs)"
  from assms(2) obtain hvs where doc: "doc = document enum vs hvs"
    by (auto simp: main_document split: sum.splits)
  have children: "''all'' \<notin> fst ` set ?g \<longrightarrow>
      get_path (JObj doc) [''all'', ''children''] = Some (JList (map JStr (map fst ?g)))"
    unfolding doc using get_path_all_children assms(3) by blast
  have keys: "fst ` set doc = {''all'', ''_meta''} \<union> fst ` set ?g"
    unfolding doc by (rule dom_document)
  have members: "\<forall>grp hosts. dict_get ?g grp = Some hosts \<longrightarrow>
        dict_get doc grp = Some (JObj [(''hosts'', JList (map JStr (enum hosts)))]) \<and>
        enum hosts \<noteq> [] \<and>
        (\<forall>h\<in>set (enum hosts). CHR ''/'' \<in> set h)"
  proof (intro allI impI)
    fix grp hosts assume g: "dict_get ?g grp = Some hosts"
    have s: "set (enum hosts) = set hosts" using assms(1) by (rule set_iteration_set)
    from group_hosts(1) [OF g] have "set hosts \<noteq> {}" by simp
    with s have ne: "enum hosts \<noteq> []" by auto
    have sep: "\<forall>h\<in>set (enum hosts). CHR ''/'' \<in> set h"
      unfolding s using group_member_has_sep [OF g] by blast
    from dict_get_document_group [OF g, of enum hvs]
    have "dict_get doc grp = Some (JObj [(''hosts'', JList (map JStr (enum hosts)))])"
      by (simp only: doc group_entry_def)
    with ne sep
    show "dict_get doc grp = Some (JObj [(''hosts'', JList (map JStr (enum hosts)))]) \<and>
        enum hosts \<noteq> [] \<and> (\<forall>h\<in>set (enum hosts). CHR ''/'' \<in> set h)"
      by blast
  qed
  from children keys members show ?thesis by blast
qed


theorem children_are_groups_witness:
  "set_iteration rev \<and>
   build_groups [''t/p/w'', ''t/d'', ''s''] = [(''t/p'', [''t/p/w'']), (''t'', [''t/p/w'', ''t/d''])] \<and>
   main rev [\<lparr>name = ''t/p/w'', members = Map.empty\<rparr>,
             \<lparr>name = ''t/d'', members = Map.empty\<rparr>,
             \<lparr>name = ''s'', members = Map.empty\<rparr>] =
     Inr [(''all'', JObj [(''hosts'', JList [JStr ''t/p/w'', JStr ''t/d'', JStr ''s'']),
                          (''vars'', JObj [(''ansible_python_interpreter'', JStr ''/usr/bin/python3'')]),
                          (''children'', JList [JStr ''t/p'', JStr ''t''])]),
          (''_meta'', JObj [(''hostvars'', JObj [])]),
          (''t/p'', JObj [(''hosts'', JList [JStr ''t/p/w''])]),
          (''t'', JObj [(''hosts'', JList [JStr ''t/d'', JStr ''t/p/w''])])] \<and>
   rev [''t/p/w'', ''t/d''] \<noteq> [] \<and>
   CHR ''/'' \<in> set ''t/d'' \<and> CHR ''/'' \<in> set ''t/p/w''"
proof -
  let ?vs = "[\<lparr>name = ''t/p/w'', members = Map.empty\<rparr>,
             \<lparr>name = ''t/d'', members = Map.empty\<rparr>,
             \<lparr>name = ''s'', members = Map.empty\<rparr>]"
  let ?doc = "[(''all'', JObj [(''hosts'', JList [JStr ''t/p/w'', JStr ''t/d'', JStr ''s'']),
                          (''vars'', JObj [(''ansible_python_interpreter'', JStr ''/usr/bin/python3'')]),
                          (''children'', JList [JStr ''t/p'', JStr ''t''])]),
          (''_meta'', JObj [(''hostvars'', JObj [])]),
          (''t/p'', JObj [(''hosts'', JList [JStr ''t/p/w''])]),
          (''t'', JObj [(''hosts'', JList [JStr ''t/d'', JStr ''t/p/w''])])]"
  have si: "set_iteration rev" by (simp add: set_iteration_def)
  have m: "main rev ?vs = Inr ?doc" by code_simp
  have g: "build_groups [''t/p/w'', ''t/d'', ''s''] =
             [(''t/p'', [''t/p/w'']), (''t'', [''t/p/w'', ''t/d''])]"
    by code_simp
  have gm: "build_groups (map name ?vs) = [(''t/p'', [''t/p/w'']), (''t'', [''t/p/w'', ''t/d''])]"
    using g by simp
  have ne: "build_groups (map name ?vs) \<noteq> []" unfolding gm by simp
  have l: "dict_get (build_groups (map name ?vs)) ''t'' = Some [''t/p/w'', ''t/d'']"
    unfolding gm by (simp add: dict_get_def)
  note r = children_are_groups [OF si m ne, THEN conjunct2, THEN conjunct2, rule_format, OF l]
  from r have "rev [''t/p/w'', ''t/d''] \<noteq> []" by (rule conjunct1 [OF conjunct2])
  moreover from r have "\<forall>h\<in>set (rev [''t/p/w'', ''t/d'']). CHR ''/'' \<in> set h"
    by (rule conjunct2 [OF conjunct2])
  then have "CHR ''/'' \<in> set ''t/d'' \<and> CHR ''/'' \<in> set ''t/p/w''"
    by simp
  ultimately show ?thesis using si m g by simp
qed

section \<open>The order of the two stages\<close>

lemma inventory_init:
  "inventory (init vs) =
     [(''all'', JObj [(''hosts'', JList (map JStr (map name vs))), (''vars'', all_vars)]),
      (''_meta'', JObj [(''hostvars'', JObj [])])]"
  by (simp add: init_def all_vars_def)

lemma groups_init:
  "groups enum (init vs) = Inr ((init vs)\<lparr>inventory := document enum vs []\<rparr>)"
  using emit_groups_base [of enum vs "[]"]
  by (simp add: groups_def inventory_init)

lemma set_meta_document:
  assumes "''_meta'' \<notin> fst ` set (build_groups (map name vs))"
  shows "dict_set (document enum vs hvs0) ''_meta'' (JObj [(''hostvars'', JObj hvs)]) =
           document enum vs hvs"
proof (cases "build_groups (map name vs) = []")
  case True
  then show ?thesis by (simp add: document_def)
next
  case False
  then show ?thesis
    by (simp add: document_def Let_def write_groups_commute [OF assms])
qed

lemma hostvars_loop_no_vars:
  "list_all (\<lambda>v. host_vars_of v = Inr []) vs \<Longrightarrow> hostvars_loop vs d = Inr d"
  by (induction vs) auto

lemma collect_no_vars:
  "list_all (\<lambda>v. host_vars_of v = Inr []) vs \<Longrightarrow> collect vs hvs = Inr hvs"
  by (induction vs) auto

text \<open>
  C2, as stated, fails: the two stages do not always write into disjoint
  parts. The name \<^verbatim>\<open>_meta/x\<close> gives a group \<^verbatim>\<open>_meta\<close>, whose entry replaces
  \<^verbatim>\<open>inventory["_meta"]\<close>. In the order of the script the host variables are
  lost and a document is printed; with the groups first, \<^verbatim>\<open>hostvars\<close> finds no
  \<^verbatim>\<open>hostvars\<close> key under \<^verbatim>\<open>_meta\<close> and ends with \<^verbatim>\<open>KeyError\<close>.
\<close>

theorem meta_group_counterexample:
  "main (\<lambda>s. s) [\<lparr>name = ''_meta/x'', members = [''ssh_host'' \<mapsto> JStr ''h'']\<rparr>] =
     Inr [(''all'', JObj [(''hosts'', JList [JStr ''_meta/x'']),
                          (''vars'', JObj [(''ansible_python_interpreter'', JStr ''/usr/bin/python3'')]),
                          (''children'', JList [JStr ''_meta''])]),
          (''_meta'', JObj [(''hosts'', JList [JStr ''_meta/x''])])] \<and>
   main_swapped (\<lambda>s. s) [\<lparr>name = ''_meta/x'', members = [''ssh_host'' \<mapsto> JStr ''h'']\<rparr>] =
     Inl KeyError"
  by code_simp

text \<open>
  C2, amended. When no group is named \<^verbatim>\<open>_meta\<close>, or when no record has a host
  variable, the two stages give the same result in either order: the same
  document, or the same error.
\<close>

theorem stages_commute:
  "(''_meta'' \<notin> fst ` set (build_groups (map name vs)) \<longrightarrow> main_swapped enum vs = main enum vs) \<and>
   (list_all (\<lambda>v. host_vars_of v = Inr []) vs \<longrightarrow> main_swapped enum vs = main enum vs)"
proof -
  have sw: "main_swapped enum vs =
      (case hostvars_loop vs (document enum vs []) of Inl e \<Rightarrow> Inl e | Inr d \<Rightarrow> Inr d)"
    by (simp add: main_swapped_def groups_init hostvars_def split: sum.splits)
  have a: "main_swapped enum vs = main enum vs"
    if m: "''_meta'' \<notin> fst ` set (build_groups (map name vs))"
  proof -
    from m have "dict_get (build_groups (map name vs)) ''_meta'' = None"
      by (simp add: dict_get_None_iff)
    then have g: "dict_get (document enum vs []) ''_meta'' = Some (JObj [(''hostvars'', JObj [])])"
      by (simp add: dict_get_document_meta)
    have h: "dict_get [(''hostvars'', JObj [])] ''hostvars'' = Some (JObj [])"
      by (simp add: dict_get_Cons)
    show ?thesis
      unfolding sw main_document hostvars_loop_collect [OF g h]
      by (simp add: set_meta_document [OF m] split: sum.splits)
  qed
  have b: "main_swapped enum vs = main enum vs"
    if n: "list_all (\<lambda>v. host_vars_of v = Inr []) vs"
    unfolding sw main_document
    by (simp add: hostvars_loop_no_vars [OF n] collect_no_vars [OF n])
  from a b show ?thesis by blast
qed

theorem stages_commute_witness:
  "''_meta'' \<notin> fst ` set (build_groups
      (map name [\<lparr>name = ''a/b'', members = [''ssh_host'' \<mapsto> JStr ''h'']\<rparr>,
                 \<lparr>name = ''c'', members = Map.empty\<rparr>])) \<and>
   main_swapped rev [\<lparr>name = ''a/b'', members = [''ssh_host'' \<mapsto> JStr ''h'']\<rparr>,
                     \<lparr>name = ''c'', members = Map.empty\<rparr>] =
   main rev [\<lparr>name = ''a/b'', members = [''ssh_host'' \<mapsto> JStr ''h'']\<rparr>,
             \<lparr>name = ''c'', members = Map.empty\<rparr>] \<and>
   main_swapped rev [\<lparr>name = ''a/b'', members = [''ssh_host'' \<mapsto> JStr ''h'']\<rparr>,
                     \<lparr>name = ''c'', members = Map.empty\<rparr>] =
     Inr [(''all'', JObj [(''hosts'', JList [JStr ''a/b'', JStr ''c'']),
                          (''vars'', JObj [(''ansible_python_interpreter'', JStr ''/usr/bin/python3'')]),
                          (''children'', JList [JStr ''a''])]),
          (''_meta'', JObj [(''hostvars'', JObj [(''a/b'', JObj [(''ansible_host'', JStr ''h'')])])]),
          (''a'', JObj [(''hosts'', JList [JStr ''a/b''])])]"
proof -
  let ?vs = "[\<lparr>name = ''a/b'', members = [''ssh_host'' \<mapsto> JStr ''h'']\<rparr>,
              \<lparr>name = ''c'', members = Map.empty\<rparr>]"
  have g: "build_groups (map name ?vs) = [(''a'', [''a/b''])]" by code_simp
  have n: "''_meta'' \<notin> fst ` set (build_groups (map name ?vs))" unfolding g by simp
  have s: "main_swapped rev ?vs =
     Inr [(''all'', JObj [(''hosts'', JList [JStr ''a/b'', JStr ''c'']),
                          (''vars'', JObj [(''ansible_python_interpreter'', JStr ''/usr/bin/python3'')]),
                          (''children'', JList [JStr ''a''])]),
          (''_meta'', JObj [(''hostvars'', JObj [(''a/b'', JObj [(''ansible_host'', JStr ''h'')])])]),
          (''a'', JObj [(''hosts'', JList [JStr ''a/b''])])]"
    by code_simp
  note e = stages_commute [of ?vs rev, THEN conjunct1, rule_format, OF n]
  from n e s show ?thesis by (intro conjI)
qed

section \<open>Two runs on the same records\<close>

lemma field_equiv_refl [simp]: "field_equiv x x"
  by (cases x) simp_all

lemma entry_equiv_refl [simp]: "entry_equiv x x"
  by (cases x) (simp_all add: list_all2_refl)

lemma doc_equiv_refl [simp]: "doc_equiv d d"
  by (simp add: doc_equiv_def list_all2_refl)

lemma doc_equiv_dict_set:
  "doc_equiv d1 d2 \<Longrightarrow> entry_equiv v1 v2 \<Longrightarrow> doc_equiv (dict_set d1 k v1) (dict_set d2 k v2)"
  unfolding doc_equiv_def
  by (induction d1 d2 rule: list_all2_induct) auto

lemma entry_equiv_group_entry:
  "set_iteration e1 \<Longrightarrow> set_iteration e2 \<Longrightarrow>
   entry_equiv (group_entry e1 hosts) (group_entry e2 hosts)"
  by (simp add: group_entry_def set_iteration_def)

lemma doc_equiv_write_groups:
  "set_iteration e1 \<Longrightarrow> set_iteration e2 \<Longrightarrow> doc_equiv d1 d2 \<Longrightarrow>
   doc_equiv (write_groups e1 g d1) (write_groups e2 g d2)"
proof (induction g arbitrary: d1 d2)
  case Nil
  then show ?case by simp
next
  case (Cons p g)
  obtain grp hosts where p: "p = (grp, hosts)" by (cases p)
  from Cons.prems have
    "doc_equiv (dict_set d1 grp (group_entry e1 hosts)) (dict_set d2 grp (group_entry e2 hosts))"
    by (intro doc_equiv_dict_set entry_equiv_group_entry)
  from Cons.IH [OF Cons.prems(1,2) this] show ?case
    by (simp add: p write_groups_Cons)
qed

lemma doc_equiv_document:
  "set_iteration e1 \<Longrightarrow> set_iteration e2 \<Longrightarrow>
   doc_equiv (document e1 vs hvs) (document e2 vs hvs)"
  by (simp add: document_def Let_def doc_equiv_write_groups)

text \<open>
  C8. Two runs on the same list of records have the same outcome, whatever
  the order in which each of them enumerates its sets: the same error, or
  documents that differ at most in the order of the lists of member hosts.
\<close>

theorem deterministic:
  assumes "set_iteration e1" and "set_iteration e2"
  shows "same_outcome (main e1 vs) (main e2 vs)"
  using doc_equiv_document [OF assms]
  by (simp add: main_document split: sum.splits)

theorem deterministic_witness:
  "set_iteration (\<lambda>s. s) \<and> set_iteration rev \<and>
   main (\<lambda>s. s) [\<lparr>name = ''a/b'', members = [''ssh_host'' \<mapsto> JStr ''h'']\<rparr>,
                   \<lparr>name = ''a/c'', members = Map.empty\<rparr>] =
     Inr [(''all'', JObj [(''hosts'', JList [JStr ''a/b'', JStr ''a/c'']),
                          (''vars'', JObj [(''ansible_python_interpreter'', JStr ''/usr/bin/python3'')]),
                          (''children'', JList [JStr ''a''])]),
          (''_meta'', JObj [(''hostvars'', JObj [(''a/b'', JObj [(''ansible_host'', JStr ''h'')])])]),
          (''a'', JObj [(''hosts'', JList [JStr ''a/b'', JStr ''a/c''])])] \<and>
   main rev [\<lparr>name = ''a/b'', members = [''ssh_host'' \<mapsto> JStr ''h'']\<rparr>,
             \<lparr>name = ''a/c'', members = Map.empty\<rparr>] =
     Inr [(''all'', JObj [(''hosts'', JList [JStr ''a/b'', JStr ''a/c'']),
                          (''vars'', JObj [(''ansible_python_interpreter'', JStr ''/usr/bin/python3'')]),
                          (''children'', JList [JStr ''a''])]),
          (''_meta'', JObj [(''hostvars'', JObj [(''a/b'', JObj [(''ansible_host'', JStr ''h'')])])]),
          (''a'', JObj [(''hosts'', JList [JStr ''a/c'', JStr ''a/b''])])] \<and>
   same_outcome
     (main (\<lambda>s. s) [\<lparr>name = ''a/b'', members = [''ssh_host'' \<mapsto> JStr ''h'']\<rparr>,
                     \<lparr>name = ''a/c'', members = Map.empty\<rparr>])
     (main rev [\<lparr>name = ''a/b'', members = [''ssh_host'' \<mapsto> JStr ''h'']\<rparr>,
               \<lparr>name = ''a/c'', members = Map.empty\<rparr>])"
proof -
  let ?vs = "[\<lparr>name = ''a/b'', members = [''ssh_host'' \<mapsto> JStr ''h'']\<rparr>,
              \<lparr>name = ''a/c'', members = Map.empty\<rparr>]"
  have i: "set_iteration (\<lambda>s. s)" by (simp add: set_iteration_def)
  have r: "set_iteration rev" by (simp add: set_iteration_def)
  have m1: "main (\<lambda>s. s) ?vs =
     Inr [(''all'', JObj [(''hosts'', JList [JStr ''a/b'', JStr ''a/c'']),
                          (''vars'', JObj [(''ansible_python_interpreter'', JStr ''/usr/bin/python3'')]),
                          (''children'', JList [JStr ''a''])]),
          (''_meta'', JObj [(''hostvars'', JObj [(''a/b'', JObj [(''ansible_host'', JStr ''h'')])])]),
          (''a'', JObj [(''hosts'', JList [JStr ''a/b'', JStr ''a/c''])])]"
    by code_simp
  have m2: "main rev ?vs =
     Inr [(''all'', JObj [(''hosts'', JList [JStr ''a/b'', JStr ''a/c'']),
                          (''vars'', JObj [(''ansible_python_interpreter'', JStr ''/usr/bin/python3'')]),
                          (''children'', JList [JStr ''a''])]),
          (''_meta'', JObj [(''hostvars'', JObj [(''a/b'', JObj [(''ansible_host'', JStr ''h'')])])]),
          (''a'', JObj [(''hosts'', JList [JStr ''a/c'', JStr ''a/b''])])]"
    by code_simp
  note d = deterministic [OF i r, of ?vs]
  from i r m1 m2 d show ?thesis by (intro conjI)
qed

section \<open>Splitting strings\<close>

lemma split_on_append: "split_on c (a @ c # b) = split_on c a @ split_on c b"
proof (induction a)
  case Nil
  then show ?case by simp
next
  case (Cons x a)
  then show ?case by (cases "split_on c a") (auto split: list.splits)
qed

lemma split_on_pieces: "p \<in> set (split_on c s) \<Longrightarrow> c \<notin> set p"
proof (induction s arbitrary: p)
  case Nil
  then show ?case by simp
next
  case (Cons x s)
  then show ?case by (cases "split_on c s") (auto split: if_splits)
qed

lemma split_on_subset: "p \<in> set (split_on c s) \<Longrightarrow> set p \<subseteq> set s"
proof (induction s arbitrary: p)
  case Nil
  then show ?case by simp
next
  case (Cons x s)
  obtain q qs where q: "split_on c s = q # qs" by (cases "split_on c s") simp_all
  with Cons.IH have "set q \<subseteq> set s" and "\<And>r. r \<in> set qs \<Longrightarrow> set r \<subseteq> set s" by simp_all
  with Cons.prems q show ?case by (auto split: if_splits)
qed

lemma set_split_on: "x \<in> set s \<Longrightarrow> x = c \<or> (\<exists>p\<in>set (split_on c s). x \<in> set p)"
proof (induction s)
  case Nil
  then show ?case by simp
next
  case (Cons y s)
  then show ?case by (cases "split_on c s") (auto split: if_splits)
qed

section \<open>Numerals\<close>

lemma digit_char_table:
  "list_all (\<lambda>d. is_hex_digit (digit_char d) \<and> digit_value (digit_char d) = d \<and>
                 (d < 10 \<longrightarrow> is_digit (digit_char d)) \<and>
                 (0 < d \<longrightarrow> digit_char d \<noteq> CHR ''0'')) [0..15]"
  by code_simp

lemma digit_char_props:
  assumes "0 \<le> d" and "d < 16"
  shows "is_hex_digit (digit_char d)" and "digit_value (digit_char d) = d"
    and "d < 10 \<Longrightarrow> is_digit (digit_char d)"
    and "0 < d \<Longrightarrow> digit_char d \<noteq> CHR ''0''"
proof -
  from assms have "d \<in> set [0..15]" by simp
  with digit_char_table have
    "is_hex_digit (digit_char d) \<and> digit_value (digit_char d) = d \<and>
     (d < 10 \<longrightarrow> is_digit (digit_char d)) \<and> (0 < d \<longrightarrow> digit_char d \<noteq> CHR ''0'')"
    unfolding list_all_iff by blast
  then show "is_hex_digit (digit_char d)" and "digit_value (digit_char d) = d"
    and "d < 10 \<Longrightarrow> is_digit (digit_char d)"
    and "0 < d \<Longrightarrow> digit_char d \<noteq> CHR ''0''"
    by blast+
qed

lemma is_digit_not_sep: "is_digit c \<Longrightarrow> c \<notin> set ''./:%''"
  by (auto simp: is_digit_def)

lemma is_hex_digit_not_sep: "is_hex_digit c \<Longrightarrow> c \<notin> set ''./:%''"
  by (auto simp: is_hex_digit_def Let_def)

lemma int_of_str_snoc: "int_of_str b (xs @ [c]) = b * int_of_str b xs + digit_value c"
  by (simp add: int_of_str_def)

lemma int_of_str_single: "int_of_str b [c] = digit_value c"
  by (simp add: int_of_str_def)

lemma digits_of_small: "n < b \<Longrightarrow> digits_of b n = [digit_char n]"
  by (subst digits_of.simps) simp

lemma digits_of_big:
  "2 \<le> b \<Longrightarrow> b \<le> n \<Longrightarrow> digits_of b n = digits_of b (n div b) @ [digit_char (n mod b)]"
  by (subst digits_of.simps) simp

lemma digits_of_hex:
  "2 \<le> b \<Longrightarrow> b \<le> 16 \<Longrightarrow> 0 \<le> n \<Longrightarrow> list_all is_hex_digit (digits_of b n)"
proof (induction b n rule: digits_of.induct)
  case (1 base n)
  show ?case
  proof (cases "n < base")
    case True
    with 1 show ?thesis by (simp add: digits_of_small digit_char_props)
  next
    case False
    with 1 have "list_all is_hex_digit (digits_of base (n div base))"
      by (simp add: pos_imp_zdiv_nonneg_iff)
    moreover from 1 have "0 \<le> n mod base" "n mod base < 16"
      by (auto intro: order_less_le_trans [OF pos_mod_bound])
    ultimately show ?thesis
      using False 1 by (simp add: digits_of_big digit_char_props)
  qed
qed

lemma digits_of_dec: "0 \<le> n \<Longrightarrow> list_all is_digit (digits_of 10 n)"
proof (induction "10::int" n rule: digits_of.induct)
  case (1 n)
  show ?case
  proof (cases "n < 10")
    case True
    with 1 show ?thesis by (simp add: digits_of_small digit_char_props)
  next
    case False
    with 1 have "list_all is_digit (digits_of 10 (n div 10))" by simp
    moreover have "0 \<le> n mod 10" "n mod 10 < 10" by auto
    ultimately show ?thesis
      using False by (simp add: digits_of_big digit_char_props)
  qed
qed

lemma int_of_str_digits_of:
  "2 \<le> b \<Longrightarrow> b \<le> 16 \<Longrightarrow> 0 \<le> n \<Longrightarrow> int_of_str b (digits_of b n) = n"
proof (induction b n rule: digits_of.induct)
  case (1 base n)
  show ?case
  proof (cases "n < base")
    case True
    with 1 show ?thesis by (simp add: digits_of_small int_of_str_single digit_char_props)
  next
    case False
    with 1 have "int_of_str base (digits_of base (n div base)) = n div base"
      by (simp add: pos_imp_zdiv_nonneg_iff)
    moreover from 1 have "0 \<le> n mod base" "n mod base < 16"
      by (auto intro: order_less_le_trans [OF pos_mod_bound])
    ultimately show ?thesis
      using False 1 by (simp add: digits_of_big int_of_str_snoc digit_char_props)
  qed
qed

lemma hd_digits_of: "2 \<le> b \<Longrightarrow> b \<le> 16 \<Longrightarrow> 0 < n \<Longrightarrow> hd (digits_of b n) \<noteq> CHR ''0''"
proof (induction b n rule: digits_of.induct)
  case (1 base n)
  show ?case
  proof (cases "n < base")
    case True
    with 1 show ?thesis by (simp add: digits_of_small digit_char_props)
  next
    case False
    with 1 have "0 < n div base" by (simp add: pos_imp_zdiv_pos_iff)
    with 1 False have "hd (digits_of base (n div base)) \<noteq> CHR ''0''" by simp
    with False 1 show ?thesis by (simp add: digits_of_big digits_of_not_Nil)
  qed
qed

lemma length_digits_of:
  "2 \<le> b \<Longrightarrow> 0 \<le> n \<Longrightarrow> n < b ^ Suc k \<Longrightarrow> length (digits_of b n) \<le> Suc k"
proof (induction k arbitrary: n)
  case 0
  then show ?case by (simp add: digits_of_small)
next
  case (Suc k)
  show ?case
  proof (cases "n < b")
    case True
    then show ?thesis by (simp add: digits_of_small)
  next
    case False
    have "n div b < b ^ Suc k"
    proof (rule ccontr)
      assume "\<not> n div b < b ^ Suc k"
      then have "b ^ Suc k \<le> n div b" by simp
      with Suc.prems(1) have "b * b ^ Suc k \<le> b * (n div b)" by (intro mult_left_mono) auto
      also have "\<dots> \<le> n"
        using Suc.prems(1) pos_mod_sign [of b n] mult_div_mod_eq [of b n] by linarith
      finally show False using Suc.prems(3) by simp
    qed
    moreover from Suc.prems have "0 \<le> n div b" by (simp add: pos_imp_zdiv_nonneg_iff)
    ultimately have "length (digits_of b (n div b)) \<le> Suc k"
      using Suc.IH Suc.prems(1) by blast
    with False Suc.prems show ?thesis by (simp add: digits_of_big)
  qed
qed

lemma str_int_not_Nil [simp]: "str_int n \<noteq> []"
  by (simp add: str_int_def digits_of_not_Nil)

lemma str_int_digits: "0 \<le> n \<Longrightarrow> isascii_isdigit (str_int n)"
  by (simp add: str_int_def isascii_isdigit_def digits_of_not_Nil digits_of_dec)

lemma str_int_no_sep: "0 \<le> n \<Longrightarrow> c \<in> set ''./:%'' \<Longrightarrow> c \<notin> set (str_int n)"
  using digits_of_dec [of n] is_digit_not_sep unfolding str_int_def list_all_iff by blast

lemma str_int_value: "0 \<le> n \<Longrightarrow> int_of_str 10 (str_int n) = n"
  by (simp add: str_int_def int_of_str_digits_of)

lemma str_int_zero: "str_int 0 = ''0''"
  by code_simp

lemma str_int_leading: "0 \<le> n \<Longrightarrow> str_int n \<noteq> ''0'' \<Longrightarrow> hd (str_int n) \<noteq> CHR ''0''"
  by (cases "n = 0") (simp_all add: str_int_zero, simp add: str_int_def hd_digits_of)

lemma str_int_length: "0 \<le> n \<Longrightarrow> n < 1000 \<Longrightarrow> length (str_int n) \<le> 3"
  using length_digits_of [of 10 n 2] by (simp add: str_int_def)

section \<open>Octets, prefix lengths and strings without a colon\<close>

lemma parse_octet_str_int:
  assumes "0 \<le> n"
  shows "parse_octet (str_int n) = (if n \<le> 255 then Some n else None)"
proof (cases "n \<le> 255")
  case True
  with assms have "length (str_int n) \<le> 3" by (simp add: str_int_length)
  with assms True show ?thesis
    using str_int_leading [OF assms]
    by (auto simp: parse_octet_def str_int_digits str_int_value Let_def)
next
  case False
  with assms show ?thesis
    by (simp add: parse_octet_def str_int_value Let_def)
qed

lemma prefix_from_prefix_string_str_int:
  assumes "0 \<le> p"
  shows "prefix_from_prefix_string m (str_int p) =
           (if p \<le> int m \<and> length (str_int p) \<le> int_max_str_digits then Some (nat p) else None)"
  using assms by (simp add: prefix_from_prefix_string_def str_int_digits str_int_value Let_def)

lemma split_on_str_int: "0 \<le> n \<Longrightarrow> c \<in> set ''./:%'' \<Longrightarrow> split_on c (str_int n) = [str_int n]"
  by (rule split_on_no_sep) (rule str_int_no_sep)

lemma ip_int_from_string4_numeral: "0 \<le> p \<Longrightarrow> ip_int_from_string4 (str_int p) = None"
  by (simp add: ip_int_from_string4_def split_on_str_int Let_def)

lemma make_netmask4_str_int:
  assumes "0 \<le> p"
  shows "make_netmask4 (str_int p) = (if p \<le> 32 then Some (nat p) else None)"
proof (cases "p \<le> 32")
  case True
  with assms have "length (str_int p) \<le> 3" by (simp add: str_int_length)
  with assms True show ?thesis
    by (simp add: make_netmask4_def prefix_from_prefix_string_str_int int_max_str_digits_def)
next
  case False
  with assms show ?thesis
    by (simp add: make_netmask4_def prefix_from_prefix_string_str_int
          prefix_from_ip_string4_def ip_int_from_string4_numeral)
qed

lemma make_netmask6_str_int:
  assumes "0 \<le> p" and "p \<le> 128"
  shows "make_netmask6 (str_int p) = Some (nat p)"
proof -
  from assms have "length (str_int p) \<le> 3" by (simp add: str_int_length)
  with assms show ?thesis
    by (simp add: make_netmask6_def prefix_from_prefix_string_str_int int_max_str_digits_def)
qed

lemma no_colon_not_ipv6: "CHR '':'' \<notin> set s \<Longrightarrow> ip_int_from_string6 s = None"
  by (simp add: ip_int_from_string6_def split_on_no_sep)

lemma split_scope_id_none: "CHR ''%'' \<notin> set s \<Longrightarrow> split_scope_id s = Some (s, None)"
proof -
  assume "CHR ''%'' \<notin> set s"
  then have "takeWhile (\<lambda>c. c \<noteq> CHR ''%'') s = s" and "dropWhile (\<lambda>c. c \<noteq> CHR ''%'') s = []"
    by auto
  then show ?thesis by (simp add: split_scope_id_def)
qed

lemma split_scope_id_colon:
  "CHR '':'' \<notin> set s \<Longrightarrow> split_scope_id s = Some (a, sc) \<Longrightarrow> CHR '':'' \<notin> set a"
  by (auto simp: split_scope_id_def Let_def split: if_splits dest: set_takeWhileD)

lemma no_colon_not_IPv6Address: "CHR '':'' \<notin> set s \<Longrightarrow> IPv6Address_str s = None"
  by (auto simp: IPv6Address_str_def no_colon_not_ipv6 split: option.splits
        dest: split_scope_id_colon)

lemma no_colon_not_IPv6Interface:
  assumes "CHR '':'' \<notin> set s"
  shows "IPv6Interface_str s = None"
proof (cases "split_addr_prefix s")
  case None
  then show ?thesis by (simp add: IPv6Interface_str_def)
next
  case (Some am)
  obtain addr msk where am: "am = (addr, msk)" by (cases am)
  from Some am have "addr = split_on CHR ''/'' s ! 0"
    by (auto simp: split_addr_prefix_def split_optional_netmask_def Let_def split: if_splits)
  then have "addr = hd (split_on CHR ''/'' s)"
    by (simp add: hd_conv_nth)
  then have "addr \<in> set (split_on CHR ''/'' s)" by simp
  then have "set addr \<subseteq> set s" by (rule split_on_subset)
  with assms have "CHR '':'' \<notin> set addr" by blast
  then show ?thesis using Some am by (simp add: IPv6Interface_str_def no_colon_not_IPv6Address)
qed

lemma those_map_Some: "(\<And>x. x \<in> set xs \<Longrightarrow> f x \<noteq> None) \<Longrightarrow> those (map f xs) \<noteq> None"
  by (induction xs) (auto split: option.splits)

lemma decimal_uptoE:
  assumes "decimal_upto n s"
  obtains k where "0 \<le> k" and "k \<le> n" and "s = str_int k"
  using assms by (auto simp: decimal_upto_def)

lemma valid_ipv4_parse:
  assumes "valid_ipv4 s"
  shows "ip_int_from_string4 s \<noteq> None"
proof -
  from assms have len: "length (split_on CHR ''.'' s) = 4"
    and oct: "\<And>x. x \<in> set (split_on CHR ''.'' s) \<Longrightarrow> decimal_upto 255 x"
    by (auto simp: valid_ipv4_def Let_def list_all_iff)
  from len have ne: "s \<noteq> []" by auto
  have "parse_octet x \<noteq> None" if "x \<in> set (split_on CHR ''.'' s)" for x
    using oct [OF that] by (auto elim!: decimal_uptoE simp: parse_octet_str_int)
  then have "those (map parse_octet (split_on CHR ''.'' s)) \<noteq> None"
    by (rule those_map_Some)
  with len ne show ?thesis by (auto simp: ip_int_from_string4_def)
qed

lemma valid_ipv4_chars:
  assumes "valid_ipv4 s" and "c \<in> set ''/:%''"
  shows "c \<notin> set s"
proof
  assume "c \<in> set s"
  with assms(2) obtain x where x: "x \<in> set (split_on CHR ''.'' s)" and c: "c \<in> set x"
    using set_split_on [of c s "CHR ''.''"] by auto
  from assms(1) x have "decimal_upto 255 x" by (auto simp: valid_ipv4_def Let_def list_all_iff)
  then obtain k where "0 \<le> k" and "x = str_int k" by (rule decimal_uptoE)
  with c assms(2) show False using str_int_no_sep [of k c] by auto
qed

lemma valid_ipv4_dot: "valid_ipv4 s \<Longrightarrow> CHR ''.'' \<in> set s"
  by (rule ccontr) (simp add: valid_ipv4_def split_on_no_sep)

section \<open>Strings of the form a.b.c.d/p\<close>

lemma dotted_cidr_split:
  assumes "0 \<le> a" "0 \<le> b" "0 \<le> c" "0 \<le> d" "0 \<le> p"
  shows "split_on CHR ''/'' (dotted_cidr a b c d p) =
           [str_int a @ ''.'' @ str_int b @ ''.'' @ str_int c @ ''.'' @ str_int d, str_int p]"
    and "split_on CHR ''.'' (str_int a @ ''.'' @ str_int b @ ''.'' @ str_int c @ ''.'' @ str_int d) =
           [str_int a, str_int b, str_int c, str_int d]"
    and "CHR '':'' \<notin> set (dotted_cidr a b c d p)"
proof -
  let ?addr = "str_int a @ ''.'' @ str_int b @ ''.'' @ str_int c @ ''.'' @ str_int d"
  have n: "CHR ''/'' \<notin> set ?addr"
    using assms by (simp add: str_int_no_sep)
  have "dotted_cidr a b c d p = ?addr @ CHR ''/'' # str_int p"
    by (simp add: dotted_cidr_def)
  then show "split_on CHR ''/'' (dotted_cidr a b c d p) = [?addr, str_int p]"
    using assms n by (simp only: split_on_append) (simp add: split_on_no_sep str_int_no_sep)
  have "?addr = str_int a @ CHR ''.'' # (str_int b @ CHR ''.'' # (str_int c @ CHR ''.'' # str_int d))"
    by simp
  then show "split_on CHR ''.'' ?addr = [str_int a, str_int b, str_int c, str_int d]"
    using assms by (simp only: split_on_append) (simp add: split_on_str_int)
  show "CHR '':'' \<notin> set (dotted_cidr a b c d p)"
    using assms by (simp add: dotted_cidr_def str_int_no_sep)
qed

lemma IPv4Interface_dotted_cidr:
  assumes "0 \<le> a" "0 \<le> b" "0 \<le> c" "0 \<le> d" "0 \<le> p"
  shows "IPv4Interface_str (dotted_cidr a b c d p) =
           (if a \<le> 255 \<and> b \<le> 255 \<and> c \<le> 255 \<and> d \<le> 255 \<and> p \<le> 32
            then Some (IPv4Interface (from_bytes [a, b, c, d]) (nat p)) else None)"
proof -
  let ?addr = "str_int a @ ''.'' @ str_int b @ ''.'' @ str_int c @ ''.'' @ str_int d"
  have sp: "split_addr_prefix (dotted_cidr a b c d p) = Some (?addr, Some (str_int p))"
    using dotted_cidr_split(1) [OF assms]
    by (simp add: split_addr_prefix_def split_optional_netmask_def)
  have n: "CHR ''/'' \<notin> set ?addr"
    using assms by (simp add: str_int_no_sep)
  have ad: "IPv4Address_str ?addr =
      (if a \<le> 255 \<and> b \<le> 255 \<and> c \<le> 255 \<and> d \<le> 255
       then Some (from_bytes [a, b, c, d]) else None)"
    using n assms dotted_cidr_split(2) [OF assms]
    by (simp add: IPv4Address_str_def ip_int_from_string4_def parse_octet_str_int)
  show ?thesis
    using assms sp ad by (simp add: IPv4Interface_str_def make_netmask4_str_int)
qed

lemma ip_interface_dotted_cidr:
  assumes "0 \<le> a" "0 \<le> b" "0 \<le> c" "0 \<le> d" "0 \<le> p"
  shows "ip_interface (JStr (dotted_cidr a b c d p)) =
           (if a \<le> 255 \<and> b \<le> 255 \<and> c \<le> 255 \<and> d \<le> 255 \<and> p \<le> 32
            then Some (IPv4Interface (from_bytes [a, b, c, d]) (nat p)) else None)"
  using dotted_cidr_split(3) [OF assms]
  by (simp add: ip_interface_str_def IPv4Interface_dotted_cidr [OF assms]
        no_colon_not_IPv6Interface)

lemma dotted_cidr_not_Nil [simp]: "dotted_cidr a b c d p \<noteq> []"
  by (simp add: dotted_cidr_def)

section \<open>Hextets\<close>

lemma hex_digits_table: "list_all is_hex_digit ''0123456789abcdefABCDEF''"
  by code_simp

lemma hextet_digits: "hextet h \<Longrightarrow> list_all is_hex_digit h"
  using hex_digits_table unfolding hextet_def list_all_iff by blast

lemma hextet_parse: "hextet h \<Longrightarrow> parse_hextet h \<noteq> None"
  using hextet_digits [of h] by (simp add: parse_hextet_def hextet_def)

lemma hextet_chars: "hextet h \<Longrightarrow> c \<in> set ''./:%'' \<Longrightarrow> c \<notin> set h"
  using hextet_digits [of h] is_hex_digit_not_sep [of c] unfolding list_all_iff by blast

lemma hex_str_parse:
  assumes "0 \<le> k" and "k < 65536"
  shows "parse_hextet (hex_str k) \<noteq> None"
proof -
  from assms have "length (digits_of 16 k) \<le> 4"
    using length_digits_of [of 16 k 3] by simp
  moreover from assms have "list_all is_hex_digit (digits_of 16 k)"
    by (simp add: digits_of_hex)
  ultimately show ?thesis
    by (simp add: parse_hextet_def hex_str_def digits_of_not_Nil)
qed

lemma parse_hextet_not_Nil: "parse_hextet p \<noteq> None \<Longrightarrow> p \<noteq> []"
  by (auto simp: parse_hextet_def)

lemma shift_hextets_ok:
  "list_all (\<lambda>p. parse_hextet p \<noteq> None) ps \<Longrightarrow> shift_hextets ps n \<noteq> None"
  by (induction ps arbitrary: n) (auto split: option.splits)

section \<open>The dotted quad at the end\<close>

lemma ipv4_suffix_plain: "CHR ''.'' \<notin> set (last parts) \<Longrightarrow> ipv4_suffix parts = Some parts"
  by (simp add: ipv4_suffix_def)

lemma ipv4_suffix_quad:
  assumes "valid_ipv4 (last parts)"
  obtains h1 h2 where "ipv4_suffix parts = Some (butlast parts @ [h1, h2])"
    and "parse_hextet h1 \<noteq> None" and "parse_hextet h2 \<noteq> None"
proof -
  from assms obtain ip where ip: "ip_int_from_string4 (last parts) = Some ip"
    using valid_ipv4_parse by blast
  from assms have "CHR ''/'' \<notin> set (last parts)" by (simp add: valid_ipv4_chars)
  with ip have a: "IPv4Address_str (last parts) = Some ip" by (simp add: IPv4Address_str_def)
  let ?h1 = "hex_str (and (drop_bit 16 ip) 65535)"
  let ?h2 = "hex_str (and ip 65535)"
  have b: "0 \<le> and x 65535 \<and> and x 65535 < 65536" for x :: int
    using AND_upper2 [of 65535 x] by simp
  from assms a have "ipv4_suffix parts = Some (butlast parts @ [?h1, ?h2])"
    by (simp add: ipv4_suffix_def valid_ipv4_dot)
  moreover have "parse_hextet ?h1 \<noteq> None" using b by (intro hex_str_parse) auto
  moreover have "parse_hextet ?h2 \<noteq> None" using b by (intro hex_str_parse) auto
  ultimately show ?thesis by (rule that)
qed

section \<open>The place of the double colon\<close>

lemma fold_skip_none:
  assumes "\<And>i. i \<in> set is \<Longrightarrow> parts ! i \<noteq> []"
  shows "fold (\<lambda>i acc.
             case acc of
               None \<Rightarrow> None
             | Some skip_index \<Rightarrow>
                 if parts ! i = [] then
                   (if skip_index \<noteq> None then None else Some (Some i))
                 else Some skip_index) is (Some sk) = Some sk"
  using assms by (induction "is") auto

lemma find_skip_index_none:
  assumes "\<And>i. 1 \<le> i \<Longrightarrow> i < length parts - 1 \<Longrightarrow> parts ! i \<noteq> []"
  shows "find_skip_index parts = Some None"
  unfolding find_skip_index_def by (rule fold_skip_none) (use assms in auto)

lemma find_skip_index_one:
  assumes k: "1 \<le> k" "k < length parts - 1" and e: "parts ! k = []"
    and ne: "\<And>i. 1 \<le> i \<Longrightarrow> i < length parts - 1 \<Longrightarrow> i \<noteq> k \<Longrightarrow> parts ! i \<noteq> []"
  shows "find_skip_index parts = Some (Some k)"
proof -
  define step where "step = (\<lambda>i acc.
             case acc of
               None \<Rightarrow> None
             | Some skip_index \<Rightarrow>
                 if parts ! i = [] then
                   (if skip_index \<noteq> None then None else Some (Some i))
                 else Some skip_index)"
  from k have sp: "[1..<length parts - 1] = [1..<k] @ k # [Suc k..<length parts - 1]"
    using upt_add_eq_append [of 1 k "length parts - 1 - k"] by (simp add: upt_conv_Cons)
  have f1: "fold step [1..<k] (Some None) = Some None"
    unfolding step_def by (rule fold_skip_none) (use ne k in auto)
  have f2: "fold step [Suc k..<length parts - 1] (Some (Some k)) = Some (Some k)"
    unfolding step_def by (rule fold_skip_none) (use ne in auto)
  have s: "step k (Some None) = Some (Some k)"
    by (simp add: step_def e)
  have "find_skip_index parts = fold step [1..<length parts - 1] (Some None)"
    by (simp add: find_skip_index_def step_def)
  also have "\<dots> = fold step [Suc k..<length parts - 1] (step k (fold step [1..<k] (Some None)))"
    by (subst sp) simp
  also have "\<dots> = Some (Some k)"
    by (simp only: f1 s f2)
  finally show ?thesis .
qed

section \<open>IPv6 addresses with and without a double colon\<close>

lemma parse_hextet_Nil [simp]: "parse_hextet [] = None"
  by (simp add: parse_hextet_def)

lemma ip6_full:
  assumes s: "ipv4_suffix (split_on CHR '':'' s) = Some parts"
    and len: "3 \<le> length (split_on CHR '':'' s)"
    and p8: "length parts = 8"
    and ok: "list_all (\<lambda>p. parse_hextet p \<noteq> None) parts"
  shows "ip_int_from_string6 s \<noteq> None"
proof -
  from len have ne: "s \<noteq> []" by auto
  from ok have nn: "\<And>p. p \<in> set parts \<Longrightarrow> p \<noteq> []"
    by (auto simp: list_all_iff)
  from p8 have pne: "parts \<noteq> []" by auto
  have "find_skip_index parts = Some None"
    by (rule find_skip_index_none) (use nn p8 in auto)
  moreover from nn pne have "hd parts \<noteq> []" and "last parts \<noteq> []" by auto
  moreover have "shift_hextets parts 0 \<noteq> None" using ok by (rule shift_hextets_ok)
  ultimately show ?thesis
    using ne len s p8 by (simp add: ip_int_from_string6_def)
qed

lemma ip6_compressed:
  assumes s: "ipv4_suffix (split_on CHR '':'' s) = Some (A @ [[]] @ B)"
    and len: "3 \<le> length (split_on CHR '':'' s)"
    and A: "A = [[]] \<or> (A \<noteq> [] \<and> list_all (\<lambda>p. parse_hextet p \<noteq> None) A)"
    and B: "B = [[]] \<or> (B \<noteq> [] \<and> list_all (\<lambda>p. parse_hextet p \<noteq> None) B)"
    and cnt: "(if A = [[]] then 0 else length A) + (if B = [[]] then 0 else length B) \<le> 7"
  shows "ip_int_from_string6 s \<noteq> None"
proof -
  let ?parts = "A @ [[]] @ B"
  from len have ne: "s \<noteq> []" by auto
  from A have Ane: "A \<noteq> []" by auto
  from B have Bne: "B \<noteq> []" by auto
  have An: "A ! i \<noteq> []" if "1 \<le> i" "i < length A" for i
  proof -
    from that A have "list_all (\<lambda>p. parse_hextet p \<noteq> None) A" by auto
    with that have "parse_hextet (A ! i) \<noteq> None" by (simp add: list_all_length)
    then show ?thesis by (rule parse_hextet_not_Nil)
  qed
  have Bn: "B ! i \<noteq> []" if "i < length B - 1" for i
  proof -
    from that B have "list_all (\<lambda>p. parse_hextet p \<noteq> None) B" by auto
    with that have "parse_hextet (B ! i) \<noteq> None" by (simp add: list_all_length)
    then show ?thesis by (rule parse_hextet_not_Nil)
  qed
  have fsi: "find_skip_index ?parts = Some (Some (length A))"
  proof (rule find_skip_index_one)
    show "1 \<le> length A" using Ane by (cases A) auto
    show "length A < length ?parts - 1" using Bne by (cases B) auto
    show "?parts ! length A = []" by (simp add: nth_append)
    show "?parts ! i \<noteq> []" if "1 \<le> i" "i < length ?parts - 1" "i \<noteq> length A" for i
    proof (cases "i < length A")
      case True
      with that An show ?thesis by (simp add: nth_append)
    next
      case False
      with that have "?parts ! i = B ! (i - length A - 1)"
        by (auto simp: nth_append nth_Cons')
      moreover from False that have "i - length A - 1 < length B - 1" by auto
      ultimately show ?thesis using Bn by simp
    qed
  qed
  have l9: "\<not> length ?parts > 8 + 1"
    using cnt Ane Bne by (auto split: if_splits)
  have hdp: "hd ?parts = hd A" using Ane by simp
  have lastp: "last ?parts = last B" using Bne by simp
  have hdA: "hd A = [] \<longleftrightarrow> A = [[]]"
  proof
    assume "hd A = []"
    show "A = [[]]"
    proof (rule ccontr)
      assume "A \<noteq> [[]]"
      with A have "list_all (\<lambda>p. parse_hextet p \<noteq> None) A" by auto
      with Ane have "parse_hextet (hd A) \<noteq> None" by (cases A) auto
      with \<open>hd A = []\<close> show False by simp
    qed
  qed simp
  have lastB: "last B = [] \<longleftrightarrow> B = [[]]"
  proof
    assume "last B = []"
    show "B = [[]]"
    proof (rule ccontr)
      assume "B \<noteq> [[]]"
      with B have "list_all (\<lambda>p. parse_hextet p \<noteq> None) B" by auto
      with Bne have "parse_hextet (last B) \<noteq> None" by (simp add: list_all_iff)
      with \<open>last B = []\<close> show False by simp
    qed
  qed simp
  define hi where "hi = (if A = [[]] then 0 else length A)"
  define lo where "lo = (if B = [[]] then 0 else length B)"
  have tk: "list_all (\<lambda>p. parse_hextet p \<noteq> None) (take hi ?parts)"
    using A by (auto simp: hi_def)
  have dr: "list_all (\<lambda>p. parse_hextet p \<noteq> None) (drop (length ?parts - lo) ?parts)"
    using B by (auto simp: lo_def)
  from shift_hextets_ok [OF tk] obtain ip where ip: "shift_hextets (take hi ?parts) 0 = Some ip"
    by blast
  have fin: "shift_hextets (drop (length ?parts - lo) ?parts)
               (push_bit (16 * (8 - (hi + lo))) ip) \<noteq> None"
    using dr by (rule shift_hextets_ok)
  have c1: "\<not> (hd ?parts = [] \<and> length A - 1 \<noteq> 0)"
    unfolding hdp hdA by auto
  have c2: "\<not> (last ?parts = [] \<and> length ?parts - length A - 1 - 1 \<noteq> 0)"
    unfolding lastp lastB by auto
  have h: "(if hd ?parts = [] then length A - 1 else length A) = hi"
    unfolding hdp hdA hi_def by auto
  have l: "(if last ?parts = [] then length ?parts - length A - 1 - 1
            else length ?parts - length A - 1) = lo"
    unfolding lastp lastB lo_def by auto
  have c3: "\<not> 8 < hi + lo + 1"
    using cnt by (simp add: hi_def lo_def)
  show ?thesis
    unfolding ip_int_from_string6_def
    using ne len l9 c1 c2 c3 ip fin
    by (simp only: s fsi option.case if_False Let_def h l not_less [symmetric]) simp
qed

section \<open>Valid addresses are parsed\<close>

lemma split_dcolon_Some: "split_dcolon s = Some (l, r) \<Longrightarrow> s = l @ CHR '':'' # CHR '':'' # r"
  by (induction s arbitrary: l rule: split_dcolon.induct) (auto split: if_splits option.splits)

lemma last_split_on_subset: "set (last (split_on c t)) \<subseteq> set t"
  by (rule split_on_subset [of _ c]) simp

lemma hextets_parse: "list_all hextet ps \<Longrightarrow> list_all (\<lambda>p. parse_hextet p \<noteq> None) ps"
  unfolding list_all_iff using hextet_parse by blast

lemma pieces_hextets:
  assumes "pieces t = Some n" and "t \<noteq> []" and "CHR ''.'' \<notin> set t"
  shows "list_all hextet (split_on CHR '':'' t) \<and> n = length (split_on CHR '':'' t)"
proof -
  have "\<not> valid_ipv4 (last (split_on CHR '':'' t))"
    using valid_ipv4_dot last_split_on_subset [of "CHR '':''" t] assms(3) by blast
  with assms(1,2) show ?thesis
    by (auto simp: pieces_def Let_def split: if_splits)
qed

lemma pieces_groups:
  assumes "pieces t = Some n" and "t \<noteq> []"
  obtains T where "ipv4_suffix (X @ split_on CHR '':'' t) = Some (X @ T)"
    and "T \<noteq> []" and "list_all (\<lambda>p. parse_hextet p \<noteq> None) T" and "length T = n"
proof -
  let ?ps = "split_on CHR '':'' t"
  have l: "last (X @ ?ps) = last ?ps" and b: "butlast (X @ ?ps) = X @ butlast ?ps"
    by (simp_all add: butlast_append)
  show ?thesis
  proof (cases "list_all hextet ?ps")
    case True
    with assms have n: "n = length ?ps" by (simp add: pieces_def)
    from True have "hextet (last ?ps)" by (simp add: list_all_iff)
    then have "CHR ''.'' \<notin> set (last (X @ ?ps))" unfolding l by (simp add: hextet_chars)
    then have "ipv4_suffix (X @ ?ps) = Some (X @ ?ps)" by (rule ipv4_suffix_plain)
    moreover have "list_all (\<lambda>p. parse_hextet p \<noteq> None) ?ps"
      using True by (rule hextets_parse)
    ultimately show ?thesis using n by (intro that [of ?ps]) simp_all
  next
    case False
    with assms have h: "list_all hextet (butlast ?ps)" and q: "valid_ipv4 (last ?ps)"
      and n: "n = length ?ps + 1"
      by (auto simp: pieces_def Let_def split: if_splits)
    from q have "valid_ipv4 (last (X @ ?ps))" unfolding l .
    then obtain h1 h2 where s: "ipv4_suffix (X @ ?ps) = Some (butlast (X @ ?ps) @ [h1, h2])"
      and h1: "parse_hextet h1 \<noteq> None" and h2: "parse_hextet h2 \<noteq> None"
      by (rule ipv4_suffix_quad)
    have "list_all (\<lambda>p. parse_hextet p \<noteq> None) (butlast ?ps @ [h1, h2])"
      using hextets_parse [OF h] h1 h2 by simp
    with s n show ?thesis unfolding b by (intro that [of "butlast ?ps @ [h1, h2]"]) simp_all
  qed
qed

lemma pieces_chars:
  assumes "pieces t = Some n" and "c \<in> set ''/%''"
  shows "c \<notin> set t"
proof
  assume "c \<in> set t"
  then have ne: "t \<noteq> []" by auto
  let ?ps = "split_on CHR '':'' t"
  from \<open>c \<in> set t\<close> assms(2) obtain p where p: "p \<in> set ?ps" and c: "c \<in> set p"
    using set_split_on [of c t "CHR '':''"] by auto
  from assms(1) ne have h: "list_all hextet (butlast ?ps)"
    and q: "hextet (last ?ps) \<or> valid_ipv4 (last ?ps)"
    by (auto simp: pieces_def Let_def list_all_iff split: if_splits dest: in_set_butlastD)
  from p have "p \<in> set (butlast ?ps) \<or> p = last ?ps"
    by (metis append_butlast_last_id Un_iff empty_iff insert_iff list.set(1) list.set(2)
          set_append split_on_not_Nil)
  with h q have "hextet p \<or> valid_ipv4 p" by (auto simp: list_all_iff)
  with c assms(2) show False
    using hextet_chars [of p c] valid_ipv4_chars [of p c] by auto
qed

lemma valid_ipv6_chars:
  assumes "valid_ipv6 s" and "c \<in> set ''/%''"
  shows "c \<notin> set s"
proof (cases "split_dcolon s")
  case None
  with assms(1) have "pieces s = Some 8" by (simp add: valid_ipv6_def)
  then show ?thesis using assms(2) by (rule pieces_chars)
next
  case (Some lr)
  obtain l r where lr: "lr = (l, r)" by (cases lr)
  from assms(1) Some lr obtain m n where "pieces l = Some m" and "pieces r = Some n"
    by (auto simp: valid_ipv6_def split: option.splits)
  then have "c \<notin> set l" and "c \<notin> set r"
    using assms(2) by (auto dest: pieces_chars)
  moreover from Some lr have "s = l @ CHR '':'' # CHR '':'' # r"
    by (simp add: split_dcolon_Some)
  ultimately show ?thesis using assms(2) by auto
qed

lemma valid_ipv6_parse:
  assumes "valid_ipv6 s"
  shows "ip_int_from_string6 s \<noteq> None"
proof (cases "split_dcolon s")
  case None
  with assms have p: "pieces s = Some 8" by (simp add: valid_ipv6_def)
  then have ne: "s \<noteq> []" by (auto simp: pieces_def)
  from p ne obtain T where s: "ipv4_suffix ([] @ split_on CHR '':'' s) = Some ([] @ T)"
    and T: "list_all (\<lambda>p. parse_hextet p \<noteq> None) T" "length T = 8"
    by (rule pieces_groups)
  from p ne have "7 \<le> length (split_on CHR '':'' s)"
    by (auto simp: pieces_def Let_def split: if_splits)
  then have "3 \<le> length (split_on CHR '':'' s)" by simp
  with s T show ?thesis by (intro ip6_full [of s T]) simp_all
next
  case (Some lr)
  obtain l r where lr: "lr = (l, r)" by (cases lr)
  from assms Some lr obtain m n where pl: "pieces l = Some m" and pr: "pieces r = Some n"
    and dot: "CHR ''.'' \<notin> set l" and mn: "m + n \<le> 7"
    by (auto simp: valid_ipv6_def split: option.splits)
  from Some lr have s: "s = l @ CHR '':'' # CHR '':'' # r"
    by (simp add: split_dcolon_Some)
  let ?A = "split_on CHR '':'' l"
  have sp: "split_on CHR '':'' s = ?A @ [[]] @ split_on CHR '':'' r"
    unfolding s by (simp only: split_on_append) simp
  have A: "?A = [[]] \<or> (?A \<noteq> [] \<and> list_all (\<lambda>p. parse_hextet p \<noteq> None) ?A)"
    and cA: "(if ?A = [[]] then 0 else length ?A) = m"
  proof -
    show "?A = [[]] \<or> (?A \<noteq> [] \<and> list_all (\<lambda>p. parse_hextet p \<noteq> None) ?A)"
    proof (cases "l = []")
      case True
      then show ?thesis by simp
    next
      case False
      with pl dot have "list_all hextet ?A" by (simp add: pieces_hextets)
      then show ?thesis using hextets_parse by simp
    qed
    show "(if ?A = [[]] then 0 else length ?A) = m"
    proof (cases "l = []")
      case True
      with pl show ?thesis by (simp add: pieces_def)
    next
      case False
      with pl dot have h: "list_all hextet ?A" and m: "m = length ?A"
        by (simp_all add: pieces_hextets)
      from h have "?A \<noteq> [[]]" by (auto simp: hextet_def)
      with m show ?thesis by simp
    qed
  qed
  obtain B where su: "ipv4_suffix (split_on CHR '':'' s) = Some (?A @ [[]] @ B)"
    and B: "B = [[]] \<or> (B \<noteq> [] \<and> list_all (\<lambda>p. parse_hextet p \<noteq> None) B)"
    and cB: "(if B = [[]] then 0 else length B) = n"
  proof (cases "r = []")
    case True
    have "ipv4_suffix (split_on CHR '':'' s) = Some (?A @ [[]] @ [[]])"
      using True by (simp add: sp ipv4_suffix_plain)
    moreover from True pr have "n = 0" by (simp add: pieces_def)
    ultimately show ?thesis by (intro that [of "[[]]"]) simp_all
  next
    case False
    with pr obtain T where t: "ipv4_suffix ((?A @ [[]]) @ split_on CHR '':'' r) = Some ((?A @ [[]]) @ T)"
      and T: "T \<noteq> []" "list_all (\<lambda>p. parse_hextet p \<noteq> None) T" "length T = n"
      by (rule pieces_groups)
    from T have "T \<noteq> [[]]" by auto
    moreover from t have "ipv4_suffix (split_on CHR '':'' s) = Some (?A @ [[]] @ T)"
      by (simp add: sp)
    ultimately show ?thesis using T by (intro that [of T]) simp_all
  qed
  have len: "3 \<le> length (split_on CHR '':'' s)"
    unfolding sp using split_on_not_Nil [of "CHR '':''" l] split_on_not_Nil [of "CHR '':''" r]
    by (cases ?A; cases "split_on CHR '':'' r") simp_all
  from su len A B show ?thesis
    by (rule ip6_compressed) (simp add: cA cB mn)
qed

lemma valid_ipv6_address: "valid_ipv6 s \<Longrightarrow> IPv6Address_str s \<noteq> None"
  by (simp add: IPv6Address_str_def valid_ipv6_chars split_scope_id_none valid_ipv6_parse)

lemma valid_cidr_accepted:
  assumes "valid_cidr s"
  shows "ip_interface_str s \<noteq> None"
proof -
  from assms obtain addr pl where sp: "split_on CHR ''/'' s = [addr, pl]"
    and v: "(valid_ipv4 addr \<and> decimal_upto 32 pl) \<or> (valid_ipv6 addr \<and> decimal_upto 128 pl)"
    by (auto simp: valid_cidr_def split: list.splits)
  from sp have sap: "split_addr_prefix s = Some (addr, Some pl)"
    by (simp add: split_addr_prefix_def split_optional_netmask_def)
  from v show ?thesis
  proof
    assume a: "valid_ipv4 addr \<and> decimal_upto 32 pl"
    then obtain p where p: "0 \<le> p" "p \<le> 32" "pl = str_int p" by (auto elim: decimal_uptoE)
    from a have "IPv4Address_str addr \<noteq> None"
      by (simp add: IPv4Address_str_def valid_ipv4_chars valid_ipv4_parse)
    with p sap have "IPv4Interface_str s \<noteq> None"
      by (auto simp: IPv4Interface_str_def make_netmask4_str_int)
    then show ?thesis by (auto simp: ip_interface_str_def)
  next
    assume a: "valid_ipv6 addr \<and> decimal_upto 128 pl"
    then obtain p where p: "0 \<le> p" "p \<le> 128" "pl = str_int p" by (auto elim: decimal_uptoE)
    from a have "IPv6Address_str addr \<noteq> None" by (simp add: valid_ipv6_address)
    with p sap have "IPv6Interface_str s \<noteq> None"
      by (auto simp: IPv6Interface_str_def make_netmask6_str_int)
    then show ?thesis by (auto simp: ip_interface_str_def split: option.splits)
  qed
qed

lemma valid_cidr_not_Nil: "valid_cidr s \<Longrightarrow> s \<noteq> []"
  by (auto simp: valid_cidr_def)

section \<open>Valid and malformed addresses\<close>

lemma str_int_inj: "0 \<le> a \<Longrightarrow> 0 \<le> b \<Longrightarrow> str_int a = str_int b \<Longrightarrow> a = b"
  by (metis str_int_value)

lemma decimal_upto_str_int: "0 \<le> a \<Longrightarrow> decimal_upto n (str_int a) \<longleftrightarrow> a \<le> n"
  by (auto simp: decimal_upto_def dest: str_int_inj)

lemma split_dcolon_no_colon: "CHR '':'' \<notin> set s \<Longrightarrow> split_dcolon s = None"
  by (induction s rule: split_dcolon.induct) auto

lemma no_colon_not_valid_ipv6: "CHR '':'' \<notin> set s \<Longrightarrow> \<not> valid_ipv6 s"
  by (auto simp: valid_ipv6_def split_dcolon_no_colon pieces_def split_on_no_sep Let_def)

lemma valid_cidr_dotted_cidr:
  assumes "0 \<le> a" "0 \<le> b" "0 \<le> c" "0 \<le> d" "0 \<le> p"
  shows "valid_cidr (dotted_cidr a b c d p) \<longleftrightarrow>
           a \<le> 255 \<and> b \<le> 255 \<and> c \<le> 255 \<and> d \<le> 255 \<and> p \<le> 32"
proof -
  let ?addr = "str_int a @ ''.'' @ str_int b @ ''.'' @ str_int c @ ''.'' @ str_int d"
  have "CHR '':'' \<notin> set ?addr" using assms by (simp add: str_int_no_sep)
  then have n6: "\<not> valid_ipv6 ?addr" by (rule no_colon_not_valid_ipv6)
  have v4: "valid_ipv4 ?addr \<longleftrightarrow> a \<le> 255 \<and> b \<le> 255 \<and> c \<le> 255 \<and> d \<le> 255"
    using assms dotted_cidr_split(2) [OF assms]
    by (simp add: valid_ipv4_def decimal_upto_str_int)
  show ?thesis
    using assms n6 v4 dotted_cidr_split(1) [OF assms]
    by (simp add: valid_cidr_def decimal_upto_str_int)
qed

lemma cidr_or_absent_not_bad: "cidr_or_absent v \<Longrightarrow> \<not> bad_address v"
  using valid_cidr_accepted
  by (auto simp: cidr_or_absent_def bad_address_def py_get_def split: option.splits json.splits)

lemma bad_address_dotted_cidr:
  assumes "0 \<le> a" "0 \<le> b" "0 \<le> c" "0 \<le> d" "0 \<le> p"
    and "members v ''network_address'' = Some (JStr (dotted_cidr a b c d p))"
    and "\<not> (a \<le> 255 \<and> b \<le> 255 \<and> c \<le> 255 \<and> d \<le> 255 \<and> p \<le> 32)"
  shows "bad_address v"
  using assms(6,7) ip_interface_dotted_cidr [OF assms(1-5)]
  by (auto simp: bad_address_def py_get_def)

text \<open>
  A string without a dot and without a colon is no address, and a string with
  more than one slash is rejected before anything is parsed.
\<close>

lemma no_dot_not_IPv4Interface:
  assumes "CHR ''.'' \<notin> set s"
  shows "IPv4Interface_str s = None"
proof (cases "split_addr_prefix s")
  case None
  then show ?thesis by (simp add: IPv4Interface_str_def)
next
  case (Some am)
  obtain addr msk where am: "am = (addr, msk)" by (cases am)
  from Some am have "addr = split_on CHR ''/'' s ! 0"
    by (auto simp: split_addr_prefix_def split_optional_netmask_def Let_def split: if_splits)
  then have "addr = hd (split_on CHR ''/'' s)"
    by (simp add: hd_conv_nth)
  then have "addr \<in> set (split_on CHR ''/'' s)" by simp
  then have "set addr \<subseteq> set s" by (rule split_on_subset)
  with assms have "CHR ''.'' \<notin> set addr" by blast
  then have "ip_int_from_string4 addr = None"
    by (simp add: ip_int_from_string4_def split_on_no_sep)
  then show ?thesis using Some am by (simp add: IPv4Interface_str_def IPv4Address_str_def)
qed

lemma no_dot_no_colon_rejected:
  "CHR ''.'' \<notin> set s \<Longrightarrow> CHR '':'' \<notin> set s \<Longrightarrow> ip_interface (JStr s) = None"
  by (simp add: ip_interface_str_def no_dot_not_IPv4Interface no_colon_not_IPv6Interface)

lemma two_slashes_rejected:
  "2 < length (split_on CHR ''/'' s) \<Longrightarrow> ip_interface (JStr s) = None"
  by (simp add: ip_interface_str_def IPv4Interface_str_def IPv6Interface_str_def
        split_addr_prefix_def split_optional_netmask_def)

lemma ip_interface_int_iff: "ip_interface (JInt n) \<noteq> None \<longleftrightarrow> 0 \<le> n \<and> n < 2 ^ 128"
  by (auto simp: ip_interface_int_def IPv4Interface_int_def IPv6Interface_int_def
        check_int_address_def ALL_ONES4_def ALL_ONES6_def)

lemma main_fails_iff: "main enum vs = Inl ValueError \<longleftrightarrow> list_ex bad_address vs"
proof (cases "collect vs []")
  case (Inl e)
  then have "e = ValueError" by (rule collect_error)
  moreover from Inl have "list_ex bad_address vs" using collect_fails_iff by blast
  ultimately show ?thesis using Inl by (simp add: main_document)
next
  case (Inr hvs)
  then have "\<not> list_ex bad_address vs" using collect_fails_iff [of vs "[]"] by simp
  with Inr show ?thesis by (simp add: main_document)
qed

lemma main_prints_iff: "(\<exists>doc. main enum vs = Inr doc) \<longleftrightarrow> \<not> list_ex bad_address vs"
proof (cases "collect vs []")
  case (Inl e)
  then have "list_ex bad_address vs" using collect_fails_iff by blast
  with Inl show ?thesis by (simp add: main_document)
next
  case (Inr hvs)
  then have "\<not> list_ex bad_address vs" using collect_fails_iff [of vs "[]"] by simp
  with Inr show ?thesis by (simp add: main_document)
qed

section \<open>Addresses that end the run\<close>

text \<open>
  C3, as the specification states it, fails: a \<^verbatim>\<open>network_address\<close> that is present
  and is no valid CIDR string does not always end the run. The empty string is
  skipped by the guard \<^verbatim>\<open>if cidr := vm.get(...)\<close>. An address without a prefix
  length, the integer 5 and the value \<^verbatim>\<open>true\<close> are accepted by \<^verbatim>\<open>ip_interface\<close>,
  and the run prints a document with the address among the host variables.
\<close>

theorem not_cidr_counterexample:
  "\<not> cidr_or_absent \<lparr>name = ''a'', members = [''network_address'' \<mapsto> JStr []]\<rparr> \<and>
   main (\<lambda>s. s) [\<lparr>name = ''a'', members = [''network_address'' \<mapsto> JStr []]\<rparr>] =
     Inr [(''all'', JObj [(''hosts'', JList [JStr ''a'']),
                          (''vars'', JObj [(''ansible_python_interpreter'', JStr ''/usr/bin/python3'')])]),
          (''_meta'', JObj [(''hostvars'', JObj [])])] \<and>
   \<not> cidr_or_absent \<lparr>name = ''a'', members = [''network_address'' \<mapsto> JStr ''10.0.0.5'']\<rparr> \<and>
   main (\<lambda>s. s) [\<lparr>name = ''a'', members = [''network_address'' \<mapsto> JStr ''10.0.0.5'']\<rparr>] =
     Inr [(''all'', JObj [(''hosts'', JList [JStr ''a'']),
                          (''vars'', JObj [(''ansible_python_interpreter'', JStr ''/usr/bin/python3'')])]),
          (''_meta'', JObj [(''hostvars'',
             JObj [(''a'', JObj [(''network_cidr'', JStr ''10.0.0.5''),
                                 (''network_address'', JStr ''10.0.0.5'')])])])] \<and>
   \<not> cidr_or_absent \<lparr>name = ''a'', members = [''network_address'' \<mapsto> JInt 5]\<rparr> \<and>
   main (\<lambda>s. s) [\<lparr>name = ''a'', members = [''network_address'' \<mapsto> JInt 5]\<rparr>] =
     Inr [(''all'', JObj [(''hosts'', JList [JStr ''a'']),
                          (''vars'', JObj [(''ansible_python_interpreter'', JStr ''/usr/bin/python3'')])]),
          (''_meta'', JObj [(''hostvars'',
             JObj [(''a'', JObj [(''network_cidr'', JInt 5),
                                 (''network_address'', JStr ''0.0.0.5'')])])])] \<and>
   \<not> cidr_or_absent \<lparr>name = ''a'', members = [''network_address'' \<mapsto> JBool True]\<rparr> \<and>
   main (\<lambda>s. s) [\<lparr>name = ''a'', members = [''network_address'' \<mapsto> JBool True]\<rparr>] =
     Inr [(''all'', JObj [(''hosts'', JList [JStr ''a'']),
                          (''vars'', JObj [(''ansible_python_interpreter'', JStr ''/usr/bin/python3'')])]),
          (''_meta'', JObj [(''hostvars'',
             JObj [(''a'', JObj [(''network_cidr'', JBool True),
                                 (''network_address'', JStr ''0.0.0.1'')])])])]"
  by code_simp

text \<open>
  C3, amended. The run fails with \<^verbatim>\<open>ValueError\<close>, and without a document, exactly
  when some record has a \<^verbatim>\<open>network_address\<close> that is true for Python and that
  \<^verbatim>\<open>ip_interface\<close> rejects; otherwise it prints a document. Every valid CIDR
  string is accepted, so that a run in which every \<^verbatim>\<open>network_address\<close> that is
  present is a valid CIDR string raises no error. An integer is accepted
  exactly from 0 to \<open>2 ^ 128 - 1\<close>. A string without a dot and without a
  colon, or with more than one slash, is rejected. Of the strings \<^verbatim>\<open>a.b.c.d/p\<close> of five numbers,
  exactly those with octets up to 255 and a prefix length up to 32 are valid
  CIDR strings, exactly those are accepted, as that address with that prefix
  length, and a record with any other of them ends the run.
\<close>

theorem address_error:
  "(main enum vs = Inl ValueError \<longleftrightarrow> list_ex bad_address vs) \<and>
   ((\<exists>doc. main enum vs = Inr doc) \<longleftrightarrow> \<not> list_ex bad_address vs) \<and>
   (list_all cidr_or_absent vs \<longrightarrow> (\<exists>doc. main enum vs = Inr doc)) \<and>
   (valid_cidr s \<longrightarrow> ip_interface (JStr s) \<noteq> None) \<and>
   (ip_interface (JInt n) \<noteq> None \<longleftrightarrow> 0 \<le> n \<and> n < 2 ^ 128) \<and>
   ((CHR ''.'' \<notin> set t \<and> CHR '':'' \<notin> set t) \<or> 2 < length (split_on CHR ''/'' t) \<longrightarrow>
      ip_interface (JStr t) = None) \<and>
   (0 \<le> a \<and> 0 \<le> b \<and> 0 \<le> c \<and> 0 \<le> d \<and> 0 \<le> p \<longrightarrow>
      (valid_cidr (dotted_cidr a b c d p) \<longleftrightarrow>
         a \<le> 255 \<and> b \<le> 255 \<and> c \<le> 255 \<and> d \<le> 255 \<and> p \<le> 32) \<and>
      ip_interface (JStr (dotted_cidr a b c d p)) =
        (if a \<le> 255 \<and> b \<le> 255 \<and> c \<le> 255 \<and> d \<le> 255 \<and> p \<le> 32
         then Some (IPv4Interface (from_bytes [a, b, c, d]) (nat p)) else None) \<and>
      (v \<in> set vs \<and> members v ''network_address'' = Some (JStr (dotted_cidr a b c d p)) \<and>
       \<not> valid_cidr (dotted_cidr a b c d p) \<longrightarrow> main enum vs = Inl ValueError))"
proof -
  have 1: "main enum vs = Inl ValueError \<longleftrightarrow> list_ex bad_address vs"
    by (rule main_fails_iff)
  have 2: "(\<exists>doc. main enum vs = Inr doc) \<longleftrightarrow> \<not> list_ex bad_address vs"
    by (rule main_prints_iff)
  have 3: "list_all cidr_or_absent vs \<longrightarrow> (\<exists>doc. main enum vs = Inr doc)"
    unfolding main_prints_iff by (auto simp: list_all_iff list_ex_iff cidr_or_absent_not_bad)
  have 4: "valid_cidr s \<longrightarrow> ip_interface (JStr s) \<noteq> None"
    by (simp add: valid_cidr_accepted)
  have i: "ip_interface (JInt n) \<noteq> None \<longleftrightarrow> 0 \<le> n \<and> n < 2 ^ 128"
    by (rule ip_interface_int_iff)
  have g: "(CHR ''.'' \<notin> set t \<and> CHR '':'' \<notin> set t) \<or> 2 < length (split_on CHR ''/'' t) \<longrightarrow>
      ip_interface (JStr t) = None"
    using no_dot_no_colon_rejected [of t] two_slashes_rejected [of t] by blast
  have 5: "0 \<le> a \<and> 0 \<le> b \<and> 0 \<le> c \<and> 0 \<le> d \<and> 0 \<le> p \<longrightarrow>
      (valid_cidr (dotted_cidr a b c d p) \<longleftrightarrow>
         a \<le> 255 \<and> b \<le> 255 \<and> c \<le> 255 \<and> d \<le> 255 \<and> p \<le> 32) \<and>
      ip_interface (JStr (dotted_cidr a b c d p)) =
        (if a \<le> 255 \<and> b \<le> 255 \<and> c \<le> 255 \<and> d \<le> 255 \<and> p \<le> 32
         then Some (IPv4Interface (from_bytes [a, b, c, d]) (nat p)) else None) \<and>
      (v \<in> set vs \<and> members v ''network_address'' = Some (JStr (dotted_cidr a b c d p)) \<and>
       \<not> valid_cidr (dotted_cidr a b c d p) \<longrightarrow> main enum vs = Inl ValueError)"
  proof
    assume n: "0 \<le> a \<and> 0 \<le> b \<and> 0 \<le> c \<and> 0 \<le> d \<and> 0 \<le> p"
    then have a: "0 \<le> a" "0 \<le> b" "0 \<le> c" "0 \<le> d" "0 \<le> p" by simp_all
    note v = valid_cidr_dotted_cidr [OF a]
    note w = ip_interface_dotted_cidr [OF a]
    have "main enum vs = Inl ValueError"
      if "v \<in> set vs \<and> members v ''network_address'' = Some (JStr (dotted_cidr a b c d p)) \<and>
          \<not> valid_cidr (dotted_cidr a b c d p)"
    proof -
      from that have "bad_address v"
        unfolding v by (intro bad_address_dotted_cidr [OF a]) simp_all
      with that have "list_ex bad_address vs" by (auto simp: list_ex_iff)
      then show ?thesis by (simp add: main_fails_iff)
    qed
    with v w show "(valid_cidr (dotted_cidr a b c d p) \<longleftrightarrow>
         a \<le> 255 \<and> b \<le> 255 \<and> c \<le> 255 \<and> d \<le> 255 \<and> p \<le> 32) \<and>
      ip_interface (JStr (dotted_cidr a b c d p)) =
        (if a \<le> 255 \<and> b \<le> 255 \<and> c \<le> 255 \<and> d \<le> 255 \<and> p \<le> 32
         then Some (IPv4Interface (from_bytes [a, b, c, d]) (nat p)) else None) \<and>
      (v \<in> set vs \<and> members v ''network_address'' = Some (JStr (dotted_cidr a b c d p)) \<and>
       \<not> valid_cidr (dotted_cidr a b c d p) \<longrightarrow> main enum vs = Inl ValueError)"
      by blast
  qed
  from 1 2 3 4 i g 5 show ?thesis by (intro conjI)
qed

theorem address_error_witness:
  "list_all cidr_or_absent
     [\<lparr>name = ''a'', members = [''network_address'' \<mapsto> JStr ''10.0.0.5/24'']\<rparr>,
      \<lparr>name = ''b'', members = [''network_address'' \<mapsto> JStr ''2001:db8::1/64'']\<rparr>,
      \<lparr>name = ''c'', members = Map.empty\<rparr>] \<and>
   (\<exists>doc. main (\<lambda>s. s)
     [\<lparr>name = ''a'', members = [''network_address'' \<mapsto> JStr ''10.0.0.5/24'']\<rparr>,
      \<lparr>name = ''b'', members = [''network_address'' \<mapsto> JStr ''2001:db8::1/64'']\<rparr>,
      \<lparr>name = ''c'', members = Map.empty\<rparr>] = Inr doc) \<and>
   valid_cidr ''2001:db8::1/64'' \<and>
   ip_interface (JStr ''2001:db8::1/64'') \<noteq> None \<and>
   ip_interface (JStr ''localhost'') = None \<and>
   ip_interface (JStr ''10.0.0.5/24/1'') = None \<and>
   dotted_cidr 10 0 0 300 24 = ''10.0.0.300/24'' \<and>
   \<not> valid_cidr (dotted_cidr 10 0 0 300 24) \<and>
   ip_interface (JStr (dotted_cidr 10 0 0 300 24)) = None \<and>
   list_ex bad_address
     [\<lparr>name = ''a'', members = Map.empty\<rparr>,
      \<lparr>name = ''b'', members = [''network_address'' \<mapsto> JStr ''10.0.0.300/24'']\<rparr>] \<and>
   main (\<lambda>s. s)
     [\<lparr>name = ''a'', members = Map.empty\<rparr>,
      \<lparr>name = ''b'', members = [''network_address'' \<mapsto> JStr ''10.0.0.300/24'']\<rparr>] = Inl ValueError"
proof -
  let ?good = "[\<lparr>name = ''a'', members = [''network_address'' \<mapsto> JStr ''10.0.0.5/24'']\<rparr>,
      \<lparr>name = ''b'', members = [''network_address'' \<mapsto> JStr ''2001:db8::1/64'']\<rparr>,
      \<lparr>name = ''c'', members = Map.empty\<rparr>]"
  let ?b = "\<lparr>name = ''b'', members = [''network_address'' \<mapsto> JStr ''10.0.0.300/24'']\<rparr>"
  let ?bad = "[\<lparr>name = ''a'', members = Map.empty\<rparr>, ?b]"
  have g: "list_all cidr_or_absent ?good" by code_simp
  have v6: "valid_cidr ''2001:db8::1/64''" by code_simp
  have d: "dotted_cidr 10 0 0 300 24 = ''10.0.0.300/24''" by code_simp
  have n: "(0::int) \<le> 10 \<and> (0::int) \<le> 0 \<and> (0::int) \<le> 0 \<and> (0::int) \<le> 300 \<and> (0::int) \<le> 24"
    by simp
  note good = address_error [of "\<lambda>s. s" ?good "''2001:db8::1/64''"]
  note bad = address_error [of "\<lambda>s. s" ?bad _ _ _ 10 0 0 300 24 ?b]
  note dotted = bad [THEN conjunct2, THEN conjunct2, THEN conjunct2, THEN conjunct2,
      THEN conjunct2, THEN conjunct2, rule_format, OF n]
  note garbage = address_error [THEN conjunct2, THEN conjunct2, THEN conjunct2, THEN conjunct2,
      THEN conjunct2, THEN conjunct1, rule_format]
  have l: "ip_interface (JStr ''localhost'') = None"
    by (rule garbage [of "''localhost''"]) simp
  have s2: "ip_interface (JStr ''10.0.0.5/24/1'') = None"
    by (rule garbage [of "''10.0.0.5/24/1''"]) simp
  have 1: "\<exists>doc. main (\<lambda>s. s) ?good = Inr doc"
    by (rule good [THEN conjunct2, THEN conjunct2, THEN conjunct1, rule_format, OF g])
  have 2: "ip_interface (JStr ''2001:db8::1/64'') \<noteq> None"
    by (rule good [THEN conjunct2, THEN conjunct2, THEN conjunct2, THEN conjunct1,
          rule_format, OF v6])
  have 3: "\<not> valid_cidr (dotted_cidr 10 0 0 300 24)"
    using dotted [THEN conjunct1] by simp
  have 4: "ip_interface (JStr (dotted_cidr 10 0 0 300 24)) = None"
    using dotted [THEN conjunct2, THEN conjunct1] by simp
  have m: "?b \<in> set ?bad \<and>
           members ?b ''network_address'' = Some (JStr (dotted_cidr 10 0 0 300 24)) \<and>
           \<not> valid_cidr (dotted_cidr 10 0 0 300 24)"
    using 3 by (simp add: d)
  have 5: "main (\<lambda>s. s) ?bad = Inl ValueError"
    by (rule dotted [THEN conjunct2, THEN conjunct2, rule_format, OF m])
  have 6: "list_ex bad_address ?bad"
    using 5 bad [THEN conjunct1] by blast
  from g 1 v6 2 l s2 d 3 4 6 5 show ?thesis by (intro conjI)
qed

end
